theory Spec2Isabelle
  imports
    Complex_Main
    "HOL-Library.Product_Lexorder"
    "HOL-Library.Char_ord"
    "HOL-Library.List_Lexorder"
begin

section \<open>Data model (app/models.py, app/detection/detector.py)\<close>

text \<open>
  \<^verbatim>\<open>CitationCategory\<close> is an enumeration in display order; \<^verbatim>\<open>sort_order\<close> is the
  position of a member in the declaration.
\<close>

datatype CitationCategory = CASES | STATUTES | CONSTITUTIONAL | RULES | OTHER

fun sort_order :: "CitationCategory \<Rightarrow> nat" where
  "sort_order CASES = 0"
| "sort_order STATUTES = 1"
| "sort_order CONSTITUTIONAL = 2"
| "sort_order RULES = 3"
| "sort_order OTHER = 4"

text \<open>
  \<^verbatim>\<open>_RawMatch\<close>: the intermediate match before deduplication. Offsets and page numbers
  are Python integers, hence \<^typ>\<open>int\<close>. The fields carry the prefix \<open>rm_\<close>, since
  \<^verbatim>\<open>text\<close> and \<^verbatim>\<open>end\<close> are reserved words and \<^verbatim>\<open>category\<close> is also a field of
  \<^verbatim>\<open>Citation\<close>.
\<close>

record RawMatch =
  rm_text :: string
  rm_start :: int
  rm_end :: int
  rm_page :: int
  rm_pattern_name :: string
  rm_category :: CitationCategory

text \<open>
  \<^verbatim>\<open>Citation\<close>: a single citation. \<^verbatim>\<open>parent_key\<close> is \<^verbatim>\<open>Optional[str]\<close>; the field
  \<^verbatim>\<open>sort_key\<close> is named \<open>sort_key_c\<close> here, \<^const>\<open>sort_key\<close> being the sorting
  function of the library. The confidence is a Python float that the engine only
  assigns constants to; it is modelled as a real number.
\<close>

record Citation =
  full_text :: string
  display_name :: string
  category :: CitationCategory
  pages :: "int list"
  is_primary :: bool
  is_short_form :: bool
  parent_key :: "string option"
  normalized_key :: string
  confidence :: real
  sort_key_c :: string

text \<open>\<^verbatim>\<open>PageText\<close> (app/parsers/docx_parser.py): the text of one page.\<close>

record PageText =
  pg_page :: int
  pg_text :: string

text \<open>
  \<^verbatim>\<open>Citation.merge_pages\<close>: the loop \<^verbatim>\<open>for p in other.pages: if p not in self.pages:
  self.pages.append(p)\<close>, then \<^verbatim>\<open>self.pages.sort()\<close>.
\<close>

fun merge_loop :: "int list \<Rightarrow> int list \<Rightarrow> int list" where
  "merge_loop [] self_pages = self_pages"
| "merge_loop (p # rest) self_pages =
     (if p \<notin> set self_pages then merge_loop rest (self_pages @ [p])
      else merge_loop rest self_pages)"

definition merge_pages :: "Citation \<Rightarrow> Citation \<Rightarrow> Citation" where
  "merge_pages self other = self\<lparr>pages := sort (merge_loop (pages other) (pages self))\<rparr>"

section \<open>Text: the operations of \<^verbatim>\<open>str\<close> and \<^verbatim>\<open>re\<close> that the engine uses\<close>

text \<open>
  A text is a list of characters, one per code point; the 8-bit \<^typ>\<open>char\<close> covers the
  code points below 256 (Latin-1), which include the section sign (code 167). The
  classes below are those of \<^verbatim>\<open>str.isspace\<close> and of \<^verbatim>\<open>\s\<close>, \<^verbatim>\<open>\d\<close> in a Unicode
  pattern, restricted to that range, and \<^verbatim>\<open>str.lower\<close> on that range.
\<close>

definition space_chars :: string where
  "space_chars =
     [CHR 0x09, CHR 0x0A, CHR 0x0B, CHR 0x0C, CHR 0x0D, CHR 0x1C, CHR 0x1D, CHR 0x1E,
      CHR 0x1F, CHR 0x20, CHR 0x85, CHR 0xA0]"

definition isspace :: "char \<Rightarrow> bool" where
  "isspace c = (c \<in> set space_chars)"

definition isdigit :: "char \<Rightarrow> bool" where
  "isdigit c = (c \<in> set ''0123456789'')"

definition isupper_ascii :: "char \<Rightarrow> bool" where
  "isupper_ascii c = (c \<in> set ''ABCDEFGHIJKLMNOPQRSTUVWXYZ'')"

definition islower_ascii :: "char \<Rightarrow> bool" where
  "islower_ascii c = (c \<in> set ''abcdefghijklmnopqrstuvwxyz'')"

text \<open>
  The characters below 256 that \<^verbatim>\<open>str.lower\<close> changes, and their images: the letters
  A to Z, and the codes 192 to 222 without 215, each mapped to the code 32 above.
\<close>

definition upper_letters :: string where
  "upper_letters = ''ABCDEFGHIJKLMNOPQRSTUVWXYZ'' @
     [CHR 0xC0, CHR 0xC1, CHR 0xC2, CHR 0xC3, CHR 0xC4, CHR 0xC5, CHR 0xC6, CHR 0xC7,
      CHR 0xC8, CHR 0xC9, CHR 0xCA, CHR 0xCB, CHR 0xCC, CHR 0xCD, CHR 0xCE, CHR 0xCF, CHR 0xD0,
      CHR 0xD1, CHR 0xD2, CHR 0xD3, CHR 0xD4, CHR 0xD5, CHR 0xD6, CHR 0xD8, CHR 0xD9,
      CHR 0xDA, CHR 0xDB, CHR 0xDC, CHR 0xDD, CHR 0xDE]"

definition lower_letters :: string where
  "lower_letters = ''abcdefghijklmnopqrstuvwxyz'' @
     [CHR 0xE0, CHR 0xE1, CHR 0xE2, CHR 0xE3, CHR 0xE4, CHR 0xE5, CHR 0xE6, CHR 0xE7,
      CHR 0xE8, CHR 0xE9, CHR 0xEA, CHR 0xEB, CHR 0xEC, CHR 0xED, CHR 0xEE, CHR 0xEF, CHR 0xF0,
      CHR 0xF1, CHR 0xF2, CHR 0xF3, CHR 0xF4, CHR 0xF5, CHR 0xF6, CHR 0xF8, CHR 0xF9,
      CHR 0xFA, CHR 0xFB, CHR 0xFC, CHR 0xFD, CHR 0xFE]"

definition lower_char :: "char \<Rightarrow> char" where
  "lower_char c = (case map_of (zip upper_letters lower_letters) c of Some l \<Rightarrow> l | None \<Rightarrow> c)"

definition lower :: "string \<Rightarrow> string" where
  "lower s = map lower_char s"

definition lstrip :: "string \<Rightarrow> string" where
  "lstrip s = dropWhile isspace s"

definition rstrip :: "string \<Rightarrow> string" where
  "rstrip s = rev (dropWhile isspace (rev s))"

definition strip :: "string \<Rightarrow> string" where
  "strip s = rstrip (lstrip s)"

text \<open>\<^verbatim>\<open>s.startswith(pre)\<close>, \<^verbatim>\<open>sub in s\<close> and \<^verbatim>\<open>s.split(sep)[0]\<close> for a non-empty \<^verbatim>\<open>sep\<close>.\<close>

definition startswith :: "string \<Rightarrow> string \<Rightarrow> bool" where
  "startswith s pre = (take (length pre) s = pre)"

fun contains :: "string \<Rightarrow> string \<Rightarrow> bool" where
  "contains [] sub = (sub = [])"
| "contains (c # cs) sub = (startswith (c # cs) sub \<or> contains cs sub)"

fun split_head :: "string \<Rightarrow> string \<Rightarrow> string" where
  "split_head [] sep = []"
| "split_head (c # cs) sep = (if startswith (c # cs) sep then [] else c # split_head cs sep)"

text \<open>
  \<^verbatim>\<open>re.sub(r"[class]+", repl, s)\<close>: every maximal run of characters of the class is
  replaced by \<open>repl\<close>; and \<^verbatim>\<open>re.sub(r"[class]", "", s)\<close>, which deletes them.
\<close>

function sub_runs :: "(char \<Rightarrow> bool) \<Rightarrow> string \<Rightarrow> string \<Rightarrow> string" where
  "sub_runs p repl [] = []"
| "sub_runs p repl (c # cs) =
     (if p c then repl @ sub_runs p repl (dropWhile p cs) else c # sub_runs p repl cs)"
  by pat_completeness auto
termination
  by (relation "measure (\<lambda>(p, repl, s). length s)")
     (auto simp: less_Suc_eq_le length_dropWhile_le)

definition delete_chars :: "(char \<Rightarrow> bool) \<Rightarrow> string \<Rightarrow> string" where
  "delete_chars p s = filter (\<lambda>c. \<not> p c) s"

definition space_or_period :: "char \<Rightarrow> bool" where
  "space_or_period c = (isspace c \<or> c = CHR ''.'')"

subsection \<open>Backtracking matcher\<close>

text \<open>
  The regular expressions of the engine use character classes, concatenation,
  alternation and greedy repetition only. \<open>rests r s\<close> lists the rests of \<open>s\<close> after every
  way \<open>r\<close> can match a prefix of \<open>s\<close>, in the order in which a backtracking matcher tries
  them: the left alternative first, the longer repetition first. The first entry is
  the match that \<^verbatim>\<open>re\<close> reports. An iteration of a repetition that consumes nothing
  ends the repetition; no repetition of the engine has such a body.
\<close>

datatype rx = Sym "char \<Rightarrow> bool" | Eps | Cat rx rx | Alt rx rx | Star rx

primrec star_iter :: "nat \<Rightarrow> (string \<Rightarrow> string list) \<Rightarrow> string \<Rightarrow> string list" where
  "star_iter 0 f s = [s]"
| "star_iter (Suc n) f s =
     concat (map (\<lambda>s'. if length s' < length s then star_iter n f s' else []) (f s)) @ [s]"

primrec rests :: "rx \<Rightarrow> string \<Rightarrow> string list" where
  "rests (Sym p) s = (case s of [] \<Rightarrow> [] | c # cs \<Rightarrow> if p c then [cs] else [])"
| "rests Eps s = [s]"
| "rests (Cat a b) s = concat (map (rests b) (rests a s))"
| "rests (Alt a b) s = rests a s @ rests b s"
| "rests (Star a) s = star_iter (length s) (rests a) s"

definition Rep1 :: "rx \<Rightarrow> rx" where
  "Rep1 r = Cat r (Star r)"

definition Opt :: "rx \<Rightarrow> rx" where
  "Opt r = Alt r Eps"

definition Chr :: "char \<Rightarrow> rx" where
  "Chr x = Sym (\<lambda>c. c = x)"

definition Lit :: "string \<Rightarrow> rx" where
  "Lit s = foldr (\<lambda>x r. Cat (Chr x) r) s Eps"

text \<open>
  A pattern is a sequence of parts; \<open>groups_at\<close> gives, for every way the sequence
  matches at the start of \<open>s\<close>, the text each part consumed. \<^verbatim>\<open>re.match\<close> takes the first
  way at the start of the text, \<^verbatim>\<open>re.search\<close> the first way at the leftmost position
  that has one.
\<close>

fun groups_at :: "rx list \<Rightarrow> string \<Rightarrow> (string list \<times> string) list" where
  "groups_at [] s = [([], s)]"
| "groups_at (r # rs) s =
     concat (map (\<lambda>s'. map (\<lambda>(gs, rest). (take (length s - length s') s # gs, rest))
                           (groups_at rs s'))
                 (rests r s))"

definition re_match :: "rx list \<Rightarrow> string \<Rightarrow> string list option" where
  "re_match rs s = (case groups_at rs s of [] \<Rightarrow> None | (gs, rest) # _ \<Rightarrow> Some gs)"

fun re_search :: "rx list \<Rightarrow> string \<Rightarrow> string list option" where
  "re_search rs [] = re_match rs []"
| "re_search rs (c # cs) =
     (case re_match rs (c # cs) of Some gs \<Rightarrow> Some gs | None \<Rightarrow> re_search rs cs)"

definition digits :: rx where
  "digits = Rep1 (Sym isdigit)"

definition spaces :: rx where
  "spaces = Rep1 (Sym isspace)"

definition nonspace :: rx where
  "nonspace = Sym (\<lambda>c. \<not> isspace c)"

section \<open>Overlap resolver (CitationDetector._remove_overlaps)\<close>

text \<open>
  The test of the source, \<^verbatim>\<open>m.start < occ_end and m.end > occ_start\<close>, between a match
  and one occupied interval.
\<close>

definition hits :: "RawMatch \<Rightarrow> int \<times> int \<Rightarrow> bool" where
  "hits m occ = (case occ of (occ_start, occ_end) \<Rightarrow> rm_start m < occ_end \<and> rm_end m > occ_start)"

text \<open>\<^verbatim>\<open>any(... for occ_start, occ_end in occupied)\<close>\<close>

definition overlaps :: "RawMatch \<Rightarrow> (int \<times> int) list \<Rightarrow> bool" where
  "overlaps m occupied = list_ex (hits m) occupied"

text \<open>
  The loop \<^verbatim>\<open>for m in matches\<close> with its two accumulators \<^verbatim>\<open>kept\<close> and \<^verbatim>\<open>occupied\<close>.
\<close>

fun accept_loop :: "RawMatch list \<Rightarrow> RawMatch list \<Rightarrow> (int \<times> int) list \<Rightarrow> RawMatch list" where
  "accept_loop [] kept occupied = kept"
| "accept_loop (m # ms) kept occupied =
     (if \<not> overlaps m occupied
      then accept_loop ms (kept @ [m]) (occupied @ [(rm_start m, rm_end m)])
      else accept_loop ms kept occupied)"

text \<open>
  \<^verbatim>\<open>list.sort\<close> is stable, and so is \<^const>\<open>sort_key\<close> (insertion sort). The first key is
  the pair \<^verbatim>\<open>(-(m.end - m.start), m.start)\<close>, compared lexicographically.
\<close>

definition length_key :: "RawMatch \<Rightarrow> int \<times> int" where
  "length_key m = (- (rm_end m - rm_start m), rm_start m)"

definition remove_overlaps :: "RawMatch list \<Rightarrow> RawMatch list" where
  "remove_overlaps matches =
     (if matches = [] then []
      else let sorted_matches = sort_key length_key matches;
               kept = accept_loop sorted_matches [] []
           in sort_key rm_start kept)"

text \<open>Two matches intersect, by the test of the source applied to their intervals.\<close>

definition intersect :: "RawMatch \<Rightarrow> RawMatch \<Rightarrow> bool" where
  "intersect a b = (rm_start a < rm_end b \<and> rm_end a > rm_start b)"

section \<open>Scanner (CitationDetector._scan)\<close>

text \<open>
  The registry is a list of named patterns with their categories. A compiled pattern
  enters the scanner only through \<^verbatim>\<open>pattern.finditer(text)\<close>, that is, through the
  list of the \<^verbatim>\<open>(m.start(), m.end())\<close> of its matches in the text; the registry is
  therefore a parameter here, each pattern being the function that yields this list,
  and the results below hold for every registry.
\<close>

type_synonym finder = "string \<Rightarrow> (nat \<times> nat) list"

type_synonym registry = "(string \<times> finder \<times> CitationCategory) list"

definition scan_page :: "registry \<Rightarrow> int \<Rightarrow> PageText \<Rightarrow> RawMatch list" where
  "scan_page reg char_offset page_data =
     concat (map (\<lambda>(name, pattern, cat).
               map (\<lambda>(s, e).
                     \<lparr>rm_text = strip (take (e - s) (drop s (pg_text page_data))),
                      rm_start = char_offset + int s,
                      rm_end = char_offset + int e,
                      rm_page = pg_page page_data,
                      rm_pattern_name = name,
                      rm_category = cat\<rparr>)
                   (pattern (pg_text page_data)))
             reg)"

fun scan_loop :: "registry \<Rightarrow> RawMatch list \<Rightarrow> int \<Rightarrow> PageText list \<Rightarrow> RawMatch list" where
  "scan_loop reg matches char_offset [] = matches"
| "scan_loop reg matches char_offset (page_data # rest) =
     scan_loop reg (matches @ scan_page reg char_offset page_data)
       (char_offset + int (length (pg_text page_data))) rest"

definition scan :: "registry \<Rightarrow> PageText list \<Rightarrow> RawMatch list" where
  "scan reg pages_in = scan_loop reg [] 0 pages_in"

section \<open>Key normalizer (CitationDetector._normalize)\<close>

text \<open>\<^verbatim>\<open>(\d+)\s+(\S+(?:\.\s*\S+)*)\s+(\d+)\<close>, as the parts volume, gap, reporter, gap, page.\<close>

definition CASE_KEY_RE :: "rx list" where
  "CASE_KEY_RE =
     [digits, spaces,
      Cat (Rep1 nonspace) (Star (Cat (Chr CHR ''.'') (Cat (Star (Sym isspace)) (Rep1 nonspace)))),
      spaces, digits]"

definition case_triple :: "string \<Rightarrow> (string \<times> string \<times> string) option" where
  "case_triple nrm =
     (case re_search CASE_KEY_RE nrm of
        Some [vol, gap1, rep, gap2, pg] \<Rightarrow> Some (vol, rep, pg)
      | _ \<Rightarrow> None)"

text \<open>The section sign, code point 167.\<close>

definition section_sign :: "char \<Rightarrow> bool" where
  "section_sign c = (c = CHR 0xA7)"

definition normalize :: "string \<Rightarrow> string \<Rightarrow> string" where
  "normalize txt pattern_name =
     (let nrm = sub_runs isspace '' '' (lower (strip txt)) in
      case (if startswith pattern_name ''case_'' then case_triple nrm else None) of
        Some (vol, rep, pg) \<Rightarrow> vol @ ''_'' @ delete_chars space_or_period rep @ ''_'' @ pg
      | None \<Rightarrow>
          if startswith pattern_name ''statute_''
          then sub_runs space_or_period ''_'' (sub_runs section_sign ''s'' nrm)
          else if startswith pattern_name ''rule_'' then sub_runs space_or_period ''_'' nrm
          else if startswith pattern_name ''const_'' then sub_runs space_or_period ''_'' nrm
          else sub_runs space_or_period ''_'' nrm)"

section \<open>Citation builder (CitationDetector._to_citations)\<close>

definition make_display_name :: "string \<Rightarrow> CitationCategory \<Rightarrow> string" where
  "make_display_name txt cat = sub_runs isspace '' '' (strip txt)"

definition to_citation :: "RawMatch \<Rightarrow> Citation" where
  "to_citation m =
     (let is_short = startswith (rm_pattern_name m) ''short_'';
          norm_key = (if \<not> is_short then normalize (rm_text m) (rm_pattern_name m) else []);
          display = make_display_name (rm_text m) (rm_category m)
      in \<lparr>full_text = rm_text m, display_name = display, category = rm_category m,
          pages = [rm_page m], is_primary = False, is_short_form = is_short,
          parent_key = None, normalized_key = norm_key, confidence = 1,
          sort_key_c = []\<rparr>)"

definition to_citations :: "RawMatch list \<Rightarrow> Citation list" where
  "to_citations matches = map to_citation matches"

section \<open>Short-form resolver (app/detection/short_form.py)\<close>

text \<open>
  The resolver mutates citation objects that the caller also holds. Objects live in a
  store that maps an address to the current state of the object there; a list of
  citations is a list of addresses.
\<close>

type_synonym heap = "nat \<Rightarrow> Citation"

text \<open>\<^verbatim>\<open>min(c.pages) if c.pages else 0\<close>\<close>

definition min_page :: "Citation \<Rightarrow> int" where
  "min_page c = (if pages c = [] then 0 else Min (set (pages c)))"

text \<open>
  The two assignments \<^verbatim>\<open>short_cite.parent_key = fc.normalized_key\<close> and
  \<^verbatim>\<open>short_cite.category = fc.category\<close>; the first changes neither field read by the
  second, so they are one update.
\<close>

definition set_parent :: "heap \<Rightarrow> nat \<Rightarrow> nat \<Rightarrow> heap" where
  "set_parent h short_cite fc =
     h(short_cite := (h short_cite)\<lparr>parent_key := Some (normalized_key (h fc)),
                                      category := category (h fc)\<rparr>)"

text \<open>
  Under \<^verbatim>\<open>re.IGNORECASE\<close> a letter of the pattern matches both of its cases; in the
  Latin-1 range these are the characters with the same lower case.
\<close>

definition ILit :: "string \<Rightarrow> rx" where
  "ILit s = foldr (\<lambda>x r. Cat (Sym (\<lambda>c. lower_char c = lower_char x)) r) s Eps"

text \<open>\<^verbatim>\<open>re.match(r"^Id\.|^Ibid\.", text, re.IGNORECASE)\<close>\<close>

definition is_id_cite :: "string \<Rightarrow> bool" where
  "is_id_cite txt = (re_match [Alt (ILit ''Id.'') (ILit ''Ibid.'')] txt \<noteq> None)"

text \<open>\<^verbatim>\<open>"supra" in text.lower()\<close>\<close>

definition is_supra_cite :: "string \<Rightarrow> bool" where
  "is_supra_cite txt = contains (lower txt) ''supra''"

text \<open>
  \<^verbatim>\<open>_resolve_id\<close>: the loop over \<^verbatim>\<open>ordered_fulls\<close> with its \<^verbatim>\<open>break\<close>, then the
  assignment when \<^verbatim>\<open>best\<close> is set (a \<^verbatim>\<open>Citation\<close> object is always true).
\<close>

fun id_loop :: "heap \<Rightarrow> nat list \<Rightarrow> int \<Rightarrow> nat option \<Rightarrow> nat option" where
  "id_loop h [] sc_page best = best"
| "id_loop h (fc # rest) sc_page best =
     (if min_page (h fc) \<le> sc_page then id_loop h rest sc_page (Some fc) else best)"

definition resolve_id :: "heap \<Rightarrow> nat \<Rightarrow> nat list \<Rightarrow> int \<Rightarrow> heap" where
  "resolve_id h short_cite ordered_fulls sc_page =
     (case id_loop h ordered_fulls sc_page None of
        None \<Rightarrow> h
      | Some best \<Rightarrow> set_parent h short_cite best)"

text \<open>\<^verbatim>\<open>_resolve_supra\<close>; the name pattern is \<^verbatim>\<open>^([A-Z][a-z]+(?:\s+[A-Z][a-z]+)?)\<close>.\<close>

definition SUPRA_NAME_RE :: "rx list" where
  "SUPRA_NAME_RE =
     [Cat (Sym isupper_ascii) (Cat (Rep1 (Sym islower_ascii))
        (Opt (Cat spaces (Cat (Sym isupper_ascii) (Rep1 (Sym islower_ascii))))))]"

definition first_party :: "string \<Rightarrow> string" where
  "first_party display = lower (strip (split_head (split_head display '' v.'') '' v ''))"

fun supra_loop :: "heap \<Rightarrow> nat list \<Rightarrow> string \<Rightarrow> nat option" where
  "supra_loop h [] name = None"
| "supra_loop h (fc # rest) name =
     (let fc_first_party = first_party (display_name (h fc))
      in if contains fc_first_party name \<or> startswith fc_first_party name then Some fc
         else supra_loop h rest name)"

definition resolve_supra :: "heap \<Rightarrow> nat \<Rightarrow> nat list \<Rightarrow> string \<Rightarrow> heap" where
  "resolve_supra h short_cite ordered_fulls txt =
     (case re_match SUPRA_NAME_RE txt of
        Some [g] \<Rightarrow>
          (case supra_loop h ordered_fulls (lower g) of
             None \<Rightarrow> h
           | Some fc \<Rightarrow> set_parent h short_cite fc)
      | _ \<Rightarrow> h)"

text \<open>
  \<^verbatim>\<open>_resolve_short_pincite\<close>; the pattern is \<^verbatim>\<open>(\d+)\s+(\S+(?:\.\S+)*)\<close>, matched at the
  start of the short form and searched in the text of a full citation. The reporter
  is lowercased and stripped of whitespace and periods.
\<close>

definition VOL_REPORTER_RE :: "rx list" where
  "VOL_REPORTER_RE =
     [digits, spaces, Cat (Rep1 nonspace) (Star (Cat (Chr CHR ''.'') (Rep1 nonspace)))]"

definition vol_reporter :: "string list option \<Rightarrow> (string \<times> string) option" where
  "vol_reporter found =
     (case found of
        Some [vol, gap, rep] \<Rightarrow> Some (vol, delete_chars space_or_period (lower rep))
      | _ \<Rightarrow> None)"

fun pincite_loop :: "heap \<Rightarrow> nat list \<Rightarrow> string \<times> string \<Rightarrow> nat option" where
  "pincite_loop h [] vr = None"
| "pincite_loop h (fc # rest) vr =
     (case vol_reporter (re_search VOL_REPORTER_RE (full_text (h fc))) of
        Some fc_vr \<Rightarrow> if vr = fc_vr then Some fc else pincite_loop h rest vr
      | None \<Rightarrow> pincite_loop h rest vr)"

definition resolve_short_pincite :: "heap \<Rightarrow> nat \<Rightarrow> nat list \<Rightarrow> string \<Rightarrow> heap" where
  "resolve_short_pincite h short_cite full_cites txt =
     (case vol_reporter (re_match VOL_REPORTER_RE txt) of
        None \<Rightarrow> h
      | Some vr \<Rightarrow>
          (case pincite_loop h full_cites vr of
             None \<Rightarrow> h
           | Some fc \<Rightarrow> set_parent h short_cite fc))"

text \<open>\<^verbatim>\<open>resolve_short_forms\<close>: one step of the loop over \<^verbatim>\<open>short_cites\<close>, and the loop.\<close>

definition resolve_one :: "heap \<Rightarrow> nat list \<Rightarrow> nat list \<Rightarrow> nat \<Rightarrow> heap" where
  "resolve_one h full_cites ordered_fulls sc =
     (let sc_page = min_page (h sc);
          txt = strip (full_text (h sc))
      in if is_id_cite txt then resolve_id h sc ordered_fulls sc_page
         else if is_supra_cite txt then resolve_supra h sc ordered_fulls txt
         else resolve_short_pincite h sc full_cites txt)"

fun resolve_loop :: "heap \<Rightarrow> nat list \<Rightarrow> nat list \<Rightarrow> nat list \<Rightarrow> heap" where
  "resolve_loop h full_cites ordered_fulls [] = h"
| "resolve_loop h full_cites ordered_fulls (sc # rest) =
     resolve_loop (resolve_one h full_cites ordered_fulls sc) full_cites ordered_fulls rest"

definition resolve_short_forms :: "heap \<Rightarrow> nat list \<Rightarrow> nat list \<Rightarrow> heap" where
  "resolve_short_forms h full_cites short_cites =
     (if full_cites = [] \<or> short_cites = [] then h
      else let ordered_fulls = sort_key (\<lambda>c. min_page (h c)) full_cites
           in resolve_loop h full_cites ordered_fulls short_cites)"

section \<open>Merger and sorter (CitationDetector.detect, Citation.generate_sort_key)\<close>

text \<open>
  \<^verbatim>\<open>key_to_cite\<close> is a dictionary from keys to citation objects; a Python dictionary keeps
  its keys in insertion order, so it is an association list with distinct keys that
  grows at the end. The first loop of step 6: a citation whose key is already present
  is merged into the object stored under the key, any other is stored.
\<close>

type_synonym key_map = "(string \<times> nat) list"

fun build_key_map :: "heap \<Rightarrow> key_map \<Rightarrow> nat list \<Rightarrow> heap \<times> key_map" where
  "build_key_map h key_to_cite [] = (h, key_to_cite)"
| "build_key_map h key_to_cite (c # rest) =
     (case map_of key_to_cite (normalized_key (h c)) of
        Some canon \<Rightarrow> build_key_map (h(canon := merge_pages (h canon) (h c))) key_to_cite rest
      | None \<Rightarrow> build_key_map h (key_to_cite @ [(normalized_key (h c), c)]) rest)"

text \<open>
  The second loop of step 6. For one short form: \<^verbatim>\<open>for p in sc.pages: if p not in
  parent.pages: parent.pages.append(p); parent.pages.sort()\<close>, guarded by
  \<^verbatim>\<open>sc.parent_key and sc.parent_key in key_to_cite\<close>; a parent key that is \<^verbatim>\<open>None\<close> or the
  empty string is false.
\<close>

fun absorb_pages :: "int list \<Rightarrow> int list \<Rightarrow> int list" where
  "absorb_pages [] parent_pages = parent_pages"
| "absorb_pages (p # rest) parent_pages =
     (if p \<notin> set parent_pages then absorb_pages rest (sort (parent_pages @ [p]))
      else absorb_pages rest parent_pages)"

definition truthy_parent :: "Citation \<Rightarrow> string option" where
  "truthy_parent sc = (case parent_key sc of None \<Rightarrow> None | Some k \<Rightarrow> if k = [] then None else Some k)"

definition absorb_one :: "heap \<Rightarrow> key_map \<Rightarrow> nat \<Rightarrow> heap" where
  "absorb_one h key_to_cite sc =
     (case truthy_parent (h sc) of
        None \<Rightarrow> h
      | Some k \<Rightarrow>
          (case map_of key_to_cite k of
             None \<Rightarrow> h
           | Some parent \<Rightarrow>
               h(parent := (h parent)\<lparr>pages := absorb_pages (pages (h sc)) (pages (h parent))\<rparr>)))"

fun absorb_shorts :: "heap \<Rightarrow> key_map \<Rightarrow> nat list \<Rightarrow> heap" where
  "absorb_shorts h key_to_cite [] = h"
| "absorb_shorts h key_to_cite (sc # rest) =
     absorb_shorts (absorb_one h key_to_cite sc) key_to_cite rest"

text \<open>
  \<^verbatim>\<open>Citation.generate_sort_key\<close>: strip, drop leading asterisks, strip, drop one leading
  article, lowercase, delete what is not a lowercase letter, a digit or a space, strip.
\<close>

definition strip_article :: "string \<Rightarrow> string" where
  "strip_article name =
     (if startswith name ''A '' then drop 2 name
      else if startswith name ''An '' then drop 3 name
      else if startswith name ''The '' then drop 4 name
      else name)"

definition sort_key_char :: "char \<Rightarrow> bool" where
  "sort_key_char c = (islower_ascii c \<or> isdigit c \<or> c = CHR '' '')"

definition generate_sort_key :: "Citation \<Rightarrow> Citation" where
  "generate_sort_key c =
     (let name = strip (display_name c);
          name = strip (dropWhile (\<lambda>x. x = CHR ''*'') name);
          name = strip_article name
      in c\<lparr>sort_key_c := strip (filter sort_key_char (lower name))\<rparr>)"

fun sort_keys_loop :: "heap \<Rightarrow> nat list \<Rightarrow> heap" where
  "sort_keys_loop h [] = h"
| "sort_keys_loop h (c # rest) = sort_keys_loop (h(c := generate_sort_key (h c))) rest"

text \<open>
  The citations built in step 3 are new objects; the object at position \<open>a\<close> of the list
  \<^verbatim>\<open>citations\<close> gets the address \<open>a\<close>. The store is a total function: an address
  beyond the list holds no object of the run and is given a blank citation, which
  nothing refers to.
\<close>

definition blank :: Citation where
  "blank = \<lparr>full_text = [], display_name = [], category = CASES, pages = [],
     is_primary = False, is_short_form = False, parent_key = None, normalized_key = [],
     confidence = 1, sort_key_c = []\<rparr>"

definition alloc :: "Citation list \<Rightarrow> heap" where
  "alloc citations a = (if a < length citations then citations ! a else blank)"

text \<open>
  \<^verbatim>\<open>detect\<close> from step 2 on. The result is the final store and the list of the
  addresses returned.
\<close>

definition detect_state :: "RawMatch list \<Rightarrow> heap \<times> nat list" where
  "detect_state raw_matches =
     (let kept = remove_overlaps raw_matches;
          citations = to_citations kept;
          h0 = alloc citations;
          addrs = [0..<length citations];
          full_cites = filter (\<lambda>c. \<not> is_short_form (h0 c)) addrs;
          short_cites = filter (\<lambda>c. is_short_form (h0 c)) addrs;
          h1 = resolve_short_forms h0 full_cites short_cites;
          (h2, key_to_cite) = build_key_map h1 [] full_cites;
          h3 = absorb_shorts h2 key_to_cite short_cites;
          result = map snd key_to_cite;
          h4 = sort_keys_loop h3 result
      in (h4, sort_key (\<lambda>c. (sort_order (category (h4 c)), sort_key_c (h4 c))) result))"

definition detect_matches :: "RawMatch list \<Rightarrow> Citation list" where
  "detect_matches raw_matches = (case detect_state raw_matches of (h, result) \<Rightarrow> map h result)"

definition detect :: "registry \<Rightarrow> PageText list \<Rightarrow> Citation list" where
  "detect reg pages_in = detect_matches (scan reg pages_in)"

section \<open>Rule-based reclassifier (app/classifier/rule_classifier.py)\<close>

definition Seq :: "rx list \<Rightarrow> rx" where
  "Seq rs = foldr Cat rs Eps"

definition any_of :: "rx list \<Rightarrow> rx" where
  "any_of rs = foldr Alt rs (Sym (\<lambda>c. False))"

definition opt_dot :: rx where
  "opt_dot = Opt (Chr CHR ''.'')"

definition opt_spaces :: rx where
  "opt_spaces = Star (Sym isspace)"

definition amp_or_comma :: rx where
  "amp_or_comma = Sym (\<lambda>c. c = CHR ''&'' \<or> c = CHR '','')"

text \<open>\<^verbatim>\<open>_TREATISE_RE\<close>: the nine signals joined by \<^verbatim>\<open>|\<close>, compiled with \<^verbatim>\<open>re.IGNORECASE\<close>.\<close>

definition TREATISE_RE :: rx where
  "TREATISE_RE = any_of
     [Seq [ILit ''Wright'', opt_spaces, amp_or_comma, opt_spaces, ILit ''Miller''],
      Seq [ILit ''Moore'', Chr (CHR 0x27), ILit ''s'', spaces, ILit ''Federal'', spaces, ILit ''Practice''],
      Seq [ILit ''Prosser'', opt_spaces, amp_or_comma, opt_spaces, ILit ''Keeton''],
      ILit ''Wigmore'',
      Seq [ILit ''Corbin'', spaces, ILit ''on'', spaces, ILit ''Contracts''],
      Seq [ILit ''Williston'', spaces, ILit ''on'', spaces, ILit ''Contracts''],
      Seq [ILit ''Am'', opt_dot, opt_spaces, ILit ''Jur'', opt_dot, opt_spaces, ILit ''2d''],
      Seq [ILit ''C'', opt_dot, ILit ''J'', opt_dot, ILit ''S'', opt_dot],
      Seq [ILit ''A'', opt_dot, ILit ''L'', opt_dot, ILit ''R'', opt_dot]]"

text \<open>\<^verbatim>\<open>_LAW_REVIEW_RE\<close>: \<^verbatim>\<open>(?:L\.?\s*Rev|Law\s+Review|L\.?\s*J|Law\s+Journal)\<close>, ignoring case.\<close>

definition LAW_REVIEW_RE :: rx where
  "LAW_REVIEW_RE = any_of
     [Seq [ILit ''L'', opt_dot, opt_spaces, ILit ''Rev''],
      Seq [ILit ''Law'', spaces, ILit ''Review''],
      Seq [ILit ''L'', opt_dot, opt_spaces, ILit ''J''],
      Seq [ILit ''Law'', spaces, ILit ''Journal'']]"

text \<open>\<^verbatim>\<open>(?:In\s+re|Ex\s+parte|Matter\s+of)\<close>, matched at the start of the text.\<close>

definition PARTY_PREFIX_RE :: rx where
  "PARTY_PREFIX_RE = any_of
     [Seq [Lit ''In'', spaces, Lit ''re''],
      Seq [Lit ''Ex'', spaces, Lit ''parte''],
      Seq [Lit ''Matter'', spaces, Lit ''of'']]"

text \<open>
  The body of the loop of \<^verbatim>\<open>reclassify\<close> for one citation. The local list
  \<^verbatim>\<open>ambiguous\<close> is filled and never read, so it is left out.
\<close>

definition reclassify_one :: "Citation \<Rightarrow> Citation" where
  "reclassify_one cite =
     (if is_short_form cite then cite
      else let txt = full_text cite in
        if category cite = CASES \<and> re_search [TREATISE_RE] txt \<noteq> None
        then cite\<lparr>category := OTHER, confidence := 9 / 10\<rparr>
        else if category cite = CASES \<and> re_search [LAW_REVIEW_RE] txt \<noteq> None
        then cite\<lparr>category := OTHER, confidence := 9 / 10\<rparr>
        else if category cite = CASES
        then (if \<not> contains txt '' v.'' \<and> \<not> contains txt '' v ''
              then (if re_match [PARTY_PREFIX_RE] txt = None
                    then cite\<lparr>confidence := 6 / 10\<rparr>
                    else cite)
              else cite)
        else cite)"

text \<open>
  \<^verbatim>\<open>reclassify\<close> changes the citation objects of its list in place and returns the list
  it was given; the model returns the store.
\<close>

fun reclassify :: "heap \<Rightarrow> nat list \<Rightarrow> heap" where
  "reclassify h [] = h"
| "reclassify h (cite # rest) = reclassify (h(cite := reclassify_one (h cite))) rest"

text \<open>A raw match over the interval from \<open>s\<close> to \<open>e\<close>, for concrete runs.\<close>

definition span :: "int \<Rightarrow> int \<Rightarrow> RawMatch" where
  "span s e = \<lparr>rm_text = ''x'', rm_start = s, rm_end = e, rm_page = 1,
     rm_pattern_name = ''case_full'', rm_category = CASES\<rparr>"

section \<open>Properties of the overlap resolver\<close>

lemma intersect_sym: "intersect a b = intersect b a"
  by (auto simp: intersect_def)

lemma hits_intersect: "hits m (rm_start k, rm_end k) = intersect k m"
  by (auto simp: hits_def intersect_def)

lemma overlaps_map: "overlaps m (map (\<lambda>k. (rm_start k, rm_end k)) kept) = (\<exists>k \<in> set kept. intersect k m)"
  by (simp add: overlaps_def list_ex_iff hits_intersect)

text \<open>A list is free of intersections when no element intersects a later one.\<close>

abbreviation disjoint_list :: "RawMatch list \<Rightarrow> bool" where
  "disjoint_list \<equiv> sorted_wrt (\<lambda>a b. \<not> intersect a b)"

lemma disjoint_list_snoc:
  "disjoint_list (xs @ [m]) = (disjoint_list xs \<and> (\<forall>k \<in> set xs. \<not> intersect k m))"
  by (auto simp: sorted_wrt_append)

lemma disjoint_list_insort:
  "disjoint_list (insort_key f m xs) = (disjoint_list xs \<and> (\<forall>k \<in> set xs. \<not> intersect k m))"
proof (induction xs)
  case Nil
  then show ?case by simp
next
  case (Cons x xs)
  then show ?case
    using intersect_sym by (auto simp: set_insort_key)
qed

lemma disjoint_list_sort: "disjoint_list (sort_key f xs) = disjoint_list xs"
proof (induction xs)
  case Nil
  then show ?case by simp
next
  case (Cons x xs)
  then show ?case
    using intersect_sym by (auto simp: disjoint_list_insort)
qed

lemma accept_loop_disjoint:
  "disjoint_list kept \<Longrightarrow> occupied = map (\<lambda>k. (rm_start k, rm_end k)) kept
     \<Longrightarrow> disjoint_list (accept_loop ms kept occupied)"
proof (induction ms arbitrary: kept occupied)
  case Nil
  then show ?case by simp
next
  case (Cons m ms)
  show ?case
  proof (cases "overlaps m occupied")
    case True
    then show ?thesis using Cons by simp
  next
    case False
    then have "\<forall>k \<in> set kept. \<not> intersect k m"
      using Cons.prems(2) by (simp add: overlaps_map)
    then have "disjoint_list (kept @ [m])"
      using Cons.prems(1) by (simp add: disjoint_list_snoc)
    then show ?thesis
      using False Cons.IH [of "kept @ [m]" "occupied @ [(rm_start m, rm_end m)]"] Cons.prems(2)
      by simp
  qed
qed

lemma remove_overlaps_disjoint: "disjoint_list (remove_overlaps ms)"
  using accept_loop_disjoint [of "[]" "[]" "sort_key length_key ms"]
  by (simp add: remove_overlaps_def Let_def disjoint_list_sort)

text \<open>
  C2. No-overlap invariant: in the list accepted by the overlap resolver, no two matches
  at different positions intersect, where two intervals intersect exactly when
  the start of one is below the end of the other and its end is above the other's start.
\<close>

theorem C2_no_overlap:
  "i < j \<Longrightarrow> j < length (remove_overlaps ms) \<Longrightarrow>
     \<not> (rm_start (remove_overlaps ms ! i) < rm_end (remove_overlaps ms ! j)
        \<and> rm_end (remove_overlaps ms ! i) > rm_start (remove_overlaps ms ! j))"
  using remove_overlaps_disjoint [of ms]
  by (simp add: sorted_wrt_iff_nth_less intersect_def)

theorem C2_no_overlap_witness:
  "(0::nat) < 1 \<and> 1 < length (remove_overlaps [span 0 10, span 5 25, span 20 50]) \<and>
     \<not> (rm_start (remove_overlaps [span 0 10, span 5 25, span 20 50] ! 0)
          < rm_end (remove_overlaps [span 0 10, span 5 25, span 20 50] ! 1)
        \<and> rm_end (remove_overlaps [span 0 10, span 5 25, span 20 50] ! 0)
          > rm_start (remove_overlaps [span 0 10, span 5 25, span 20 50] ! 1))"
proof -
  have l: "1 < length (remove_overlaps [span 0 10, span 5 25, span 20 50])"
    by code_simp
  show ?thesis
    using l C2_no_overlap [OF _ l, of 0] by simp
qed

lemma length_key_less:
  "(length_key a < length_key b) = (rm_end b - rm_start b < rm_end a - rm_start a
      \<or> (rm_end b - rm_start b = rm_end a - rm_start a \<and> rm_start a < rm_start b))"
  by (auto simp: length_key_def less_prod_def)

lemma accept_loop_mono: "m \<in> set kept \<Longrightarrow> m \<in> set (accept_loop xs kept occupied)"
  by (induction xs arbitrary: kept occupied) auto

lemma accept_loop_first:
  "m \<in> set xs \<Longrightarrow> occupied = map (\<lambda>k. (rm_start k, rm_end k)) kept
     \<Longrightarrow> \<forall>k \<in> set kept. \<not> intersect k m
     \<Longrightarrow> \<forall>x \<in> set (takeWhile (\<lambda>x. x \<noteq> m) xs). \<not> intersect x m
     \<Longrightarrow> m \<in> set (accept_loop xs kept occupied)"
proof (induction xs arbitrary: kept occupied)
  case Nil
  then show ?case by simp
next
  case (Cons x xs)
  show ?case
  proof (cases "x = m")
    case True
    have "\<not> overlaps m occupied"
      using Cons.prems(2,3) by (simp add: overlaps_map)
    then show ?thesis
      using True by (simp add: accept_loop_mono)
  next
    case False
    have xm: "\<not> intersect x m" using False Cons.prems(4) by simp
    have rest: "\<forall>y \<in> set (takeWhile (\<lambda>x. x \<noteq> m) xs). \<not> intersect y m"
      using False Cons.prems(4) by simp
    have mem: "m \<in> set xs" using False Cons.prems(1) by auto
    show ?thesis
    proof (cases "overlaps x occupied")
      case True
      then show ?thesis
        using Cons.IH [OF mem Cons.prems(2) Cons.prems(3) rest] by simp
    next
      case False
      have "m \<in> set (accept_loop xs (kept @ [x]) (occupied @ [(rm_start x, rm_end x)]))"
        using Cons.prems(2,3) xm
        by (intro Cons.IH [OF mem _ _ rest]) auto
      then show ?thesis using False by simp
    qed
  qed
qed

lemma sorted_before_first:
  "sorted (map f xs) \<Longrightarrow> m \<in> set xs \<Longrightarrow> x \<in> set (takeWhile (\<lambda>x. x \<noteq> m) xs) \<Longrightarrow> f x \<le> f m"
  by (induction xs) (auto split: if_splits)

lemma remove_overlaps_keeps:
  assumes "m \<in> set ms"
    and "\<forall>m' \<in> set ms. m' \<noteq> m \<and> intersect m' m \<longrightarrow> length_key m < length_key m'"
  shows "m \<in> set (remove_overlaps ms)"
proof -
  let ?s = "sort_key length_key ms"
  have mem: "m \<in> set ?s" using assms(1) by simp
  have "\<forall>x \<in> set (takeWhile (\<lambda>x. x \<noteq> m) ?s). \<not> intersect x m"
  proof
    fix x assume x: "x \<in> set (takeWhile (\<lambda>x. x \<noteq> m) ?s)"
    have le: "length_key x \<le> length_key m"
      using sorted_before_first [OF sorted_sort_key mem x] .
    have "x \<in> set ms" "x \<noteq> m"
      using x set_takeWhileD [OF x] by auto
    then show "\<not> intersect x m" using assms(2) le by auto
  qed
  then have "m \<in> set (accept_loop ?s [] [])"
    using accept_loop_first [OF mem, of "[]" "[]"] by simp
  then show ?thesis
    using assms(1) by (auto simp: remove_overlaps_def Let_def)
qed

lemma remove_overlaps_pair:
  assumes "intersect a b" "length_key a < length_key b"
  shows "remove_overlaps [a, b] = [a]" "remove_overlaps [b, a] = [a]"
  using assms
  by (auto simp: remove_overlaps_def Let_def overlaps_def hits_def intersect_def)

lemma disjoint_list_set:
  "disjoint_list xs \<Longrightarrow> x \<in> set xs \<Longrightarrow> y \<in> set xs \<Longrightarrow> x \<noteq> y \<Longrightarrow> \<not> intersect x y"
  using intersect_sym by (induction xs) auto

text \<open>
  C7 as stated fails: the longer of two intersecting matches is itself discarded when a
  third match, longer still, intersects it and is accepted first, and then the shorter
  one survives. Here the match from 5 to 25 intersects the match from 0 to 10 and is
  longer, yet only the matches from 0 to 10 and from 20 to 50 are accepted.
\<close>

theorem C7_counterexample:
  "intersect (span 5 25) (span 0 10)
   \<and> rm_end (span 0 10) - rm_start (span 0 10) < rm_end (span 5 25) - rm_start (span 5 25)
   \<and> span 5 25 \<in> set [span 0 10, span 5 25, span 20 50]
   \<and> span 0 10 \<in> set [span 0 10, span 5 25, span 20 50]
   \<and> span 5 25 \<notin> set (remove_overlaps [span 0 10, span 5 25, span 20 50])
   \<and> span 0 10 \<in> set (remove_overlaps [span 0 10, span 5 25, span 20 50])"
  by code_simp

text \<open>
  C7, amended. When the list consists of just two intersecting matches, the longer one
  survives and the shorter is discarded, in either input order and whatever their
  patterns and categories; with equal lengths the one with the smaller start survives.
  In any list, a match survives whenever every other match that intersects it is
  shorter, or equally long with a larger start; and two different intersecting matches
  never both survive.
\<close>

theorem C7_length_preference:
  "(intersect a b \<and> rm_end b - rm_start b < rm_end a - rm_start a
      \<longrightarrow> remove_overlaps [a, b] = [a] \<and> remove_overlaps [b, a] = [a])
   \<and> (intersect a b \<and> rm_end b - rm_start b = rm_end a - rm_start a \<and> rm_start a < rm_start b
      \<longrightarrow> remove_overlaps [a, b] = [a] \<and> remove_overlaps [b, a] = [a])
   \<and> (m \<in> set ms
        \<and> (\<forall>m' \<in> set ms. m' \<noteq> m \<and> intersect m' m \<longrightarrow>
             rm_end m' - rm_start m' < rm_end m - rm_start m
             \<or> (rm_end m' - rm_start m' = rm_end m - rm_start m \<and> rm_start m < rm_start m'))
      \<longrightarrow> m \<in> set (remove_overlaps ms))
   \<and> (x \<in> set (remove_overlaps ms) \<and> y \<in> set (remove_overlaps ms) \<and> x \<noteq> y
      \<longrightarrow> \<not> intersect x y)"
proof (intro conjI impI)
  assume h: "intersect a b \<and> rm_end b - rm_start b < rm_end a - rm_start a"
  then have "length_key a < length_key b" by (simp add: length_key_less)
  then show "remove_overlaps [a, b] = [a]" "remove_overlaps [b, a] = [a]"
    using h remove_overlaps_pair by blast+
next
  assume h: "intersect a b \<and> rm_end b - rm_start b = rm_end a - rm_start a \<and> rm_start a < rm_start b"
  then have "length_key a < length_key b" by (simp add: length_key_less)
  then show "remove_overlaps [a, b] = [a]" "remove_overlaps [b, a] = [a]"
    using h remove_overlaps_pair by blast+
next
  assume h: "m \<in> set ms
        \<and> (\<forall>m' \<in> set ms. m' \<noteq> m \<and> intersect m' m \<longrightarrow>
             rm_end m' - rm_start m' < rm_end m - rm_start m
             \<or> (rm_end m' - rm_start m' = rm_end m - rm_start m \<and> rm_start m < rm_start m'))"
  then have "\<forall>m' \<in> set ms. m' \<noteq> m \<and> intersect m' m \<longrightarrow> length_key m < length_key m'"
    by (simp add: length_key_less)
  then show "m \<in> set (remove_overlaps ms)"
    using h remove_overlaps_keeps by blast
next
  assume "x \<in> set (remove_overlaps ms) \<and> y \<in> set (remove_overlaps ms) \<and> x \<noteq> y"
  then show "\<not> intersect x y"
    using disjoint_list_set [OF remove_overlaps_disjoint] by blast
qed

theorem C7_length_preference_witness:
  "intersect (span 0 35) (span 10 30)
   \<and> rm_end (span 10 30) - rm_start (span 10 30) < rm_end (span 0 35) - rm_start (span 0 35)
   \<and> remove_overlaps [span 0 35, span 10 30] = [span 0 35]
   \<and> remove_overlaps [span 10 30, span 0 35] = [span 0 35]
   \<and> intersect (span 0 20) (span 10 30)
   \<and> rm_end (span 10 30) - rm_start (span 10 30) = rm_end (span 0 20) - rm_start (span 0 20)
   \<and> rm_start (span 0 20) < rm_start (span 10 30)
   \<and> remove_overlaps [span 0 20, span 10 30] = [span 0 20]
   \<and> remove_overlaps [span 10 30, span 0 20] = [span 0 20]
   \<and> span 20 50 \<in> set [span 0 10, span 5 25, span 20 50]
   \<and> span 20 50 \<in> set (remove_overlaps [span 0 10, span 5 25, span 20 50])
   \<and> span 0 10 \<in> set (remove_overlaps [span 0 10, span 5 25, span 20 50])
   \<and> span 0 10 \<noteq> span 20 50
   \<and> \<not> intersect (span 0 10) (span 20 50)"
proof -
  have p1: "intersect (span 0 35) (span 10 30)
     \<and> rm_end (span 10 30) - rm_start (span 10 30) < rm_end (span 0 35) - rm_start (span 0 35)"
    by (simp add: intersect_def span_def)
  have p2: "intersect (span 0 20) (span 10 30)
     \<and> rm_end (span 10 30) - rm_start (span 10 30) = rm_end (span 0 20) - rm_start (span 0 20)
     \<and> rm_start (span 0 20) < rm_start (span 10 30)"
    by (simp add: intersect_def span_def)
  have p3: "span 20 50 \<in> set [span 0 10, span 5 25, span 20 50]
     \<and> (\<forall>m' \<in> set [span 0 10, span 5 25, span 20 50]. m' \<noteq> span 20 50 \<and> intersect m' (span 20 50) \<longrightarrow>
          rm_end m' - rm_start m' < rm_end (span 20 50) - rm_start (span 20 50)
          \<or> (rm_end m' - rm_start m' = rm_end (span 20 50) - rm_start (span 20 50)
              \<and> rm_start (span 20 50) < rm_start m'))"
    by (simp add: intersect_def span_def)
  have p4: "span 0 10 \<in> set (remove_overlaps [span 0 10, span 5 25, span 20 50])
     \<and> span 0 10 \<noteq> span 20 50"
    by code_simp
  have k: "span 20 50 \<in> set (remove_overlaps [span 0 10, span 5 25, span 20 50])"
    using p3 C7_length_preference [of "span 0 35" "span 10 30" "span 20 50"
        "[span 0 10, span 5 25, span 20 50]" "span 0 10" "span 20 50"]
    by blast
  have q1: "remove_overlaps [span 0 35, span 10 30] = [span 0 35]
      \<and> remove_overlaps [span 10 30, span 0 35] = [span 0 35]"
    using p1 C7_length_preference [of "span 0 35" "span 10 30" "span 20 50"
        "[span 0 10, span 5 25, span 20 50]" "span 0 10" "span 20 50"]
    by blast
  have q2: "remove_overlaps [span 0 20, span 10 30] = [span 0 20]
      \<and> remove_overlaps [span 10 30, span 0 20] = [span 0 20]"
    using p2 C7_length_preference [of "span 0 20" "span 10 30" "span 20 50"
        "[span 0 10, span 5 25, span 20 50]" "span 0 10" "span 20 50"]
    by blast
  have q4: "\<not> intersect (span 0 10) (span 20 50)"
    using p4 k C7_length_preference [of "span 0 35" "span 10 30" "span 20 50"
        "[span 0 10, span 5 25, span 20 50]" "span 0 10" "span 20 50"]
    by blast
  show ?thesis
    using p1 p2 p3 p4 k q1 q2 q4 by blast
qed

section \<open>Properties of the reclassifier\<close>

lemma reclassify_one_idem: "reclassify_one (reclassify_one c) = reclassify_one c"
  by (simp add: reclassify_one_def Let_def)

lemma reclassify_pointwise:
  "reclassify h cs = (\<lambda>a. if a \<in> set cs then reclassify_one (h a) else h a)"
proof (induction cs arbitrary: h)
  case Nil
  then show ?case by simp
next
  case (Cons c cs)
  show ?case
    by (rule ext) (simp add: Cons.IH reclassify_one_idem)
qed

text \<open>Two citations for concrete runs: a treatise taken for a case, and a bare reporter cite.\<close>

definition treatise_example :: Citation where
  "treatise_example = \<lparr>full_text = ''Wigmore'',
     display_name = ''Wigmore'', category = CASES, pages = [3],
     is_primary = False, is_short_form = False, parent_key = None,
     normalized_key = ''wigmore'', confidence = 1, sort_key_c = []\<rparr>"

definition bare_example :: Citation where
  "bare_example = \<lparr>full_text = ''1 F 2'',
     display_name = ''1 F 2'', category = CASES, pages = [4],
     is_primary = False, is_short_form = False, parent_key = None,
     normalized_key = ''1_f_2'', confidence = 1, sort_key_c = []\<rparr>"

text \<open>
  C9. Reclassifier idempotence: running \<^verbatim>\<open>reclassify\<close> again over its own output changes
  nothing; the store after the second run equals the store after the first, so no
  category changes and no confidence is lowered further.
\<close>

theorem C9_reclassify_idempotent:
  "reclassify (reclassify h cs) cs = reclassify h cs"
  by (rule ext) (simp add: reclassify_pointwise reclassify_one_idem)

theorem C9_reclassify_idempotent_witness:
  "reclassify (reclassify (\<lambda>a. if a = 0 then treatise_example else bare_example) [0, 1]) [0, 1]
     = reclassify (\<lambda>a. if a = 0 then treatise_example else bare_example) [0, 1]
   \<and> category (reclassify (\<lambda>a. if a = 0 then treatise_example else bare_example) [0, 1] 0) = OTHER
   \<and> confidence (reclassify (\<lambda>a. if a = 0 then treatise_example else bare_example) [0, 1] 0) = 9 / 10
   \<and> category (reclassify (\<lambda>a. if a = 0 then treatise_example else bare_example) [0, 1] 1) = CASES
   \<and> confidence (reclassify (\<lambda>a. if a = 0 then treatise_example else bare_example) [0, 1] 1) = 6 / 10"
proof -
  have a: "reclassify_one treatise_example = treatise_example\<lparr>category := OTHER, confidence := 9 / 10\<rparr>"
    by code_simp
  have b: "reclassify_one bare_example = bare_example\<lparr>confidence := 6 / 10\<rparr>"
    by code_simp
  have c: "category bare_example = CASES"
    by (simp add: bare_example_def)
  show ?thesis
    using C9_reclassify_idempotent [of "\<lambda>a. if a = 0 then treatise_example else bare_example" "[0, 1]"]
    by (simp add: a b c)
qed

section \<open>Properties of the short-form resolver\<close>

text \<open>
  The full citation that one step of the resolver links a short form to, if any; it is
  read off the three strategies.
\<close>

definition target :: "heap \<Rightarrow> nat list \<Rightarrow> nat list \<Rightarrow> nat \<Rightarrow> nat option" where
  "target h full_cites ordered_fulls sc =
     (let sc_page = min_page (h sc);
          txt = strip (full_text (h sc))
      in if is_id_cite txt then id_loop h ordered_fulls sc_page None
         else if is_supra_cite txt then
           (case re_match SUPRA_NAME_RE txt of
              Some [g] \<Rightarrow> supra_loop h ordered_fulls (lower g)
            | _ \<Rightarrow> None)
         else (case vol_reporter (re_match VOL_REPORTER_RE txt) of
                 None \<Rightarrow> None
               | Some vr \<Rightarrow> pincite_loop h full_cites vr))"

definition link :: "heap \<Rightarrow> nat option \<Rightarrow> nat \<Rightarrow> Citation" where
  "link h t sc =
     (case t of
        None \<Rightarrow> h sc
      | Some fc \<Rightarrow> (h sc)\<lparr>parent_key := Some (normalized_key (h fc)), category := category (h fc)\<rparr>)"

lemma resolve_one_target:
  "resolve_one h full ord sc = h(sc := link h (target h full ord sc) sc)"
  by (auto simp: resolve_one_def target_def link_def Let_def resolve_id_def resolve_supra_def
      resolve_short_pincite_def set_parent_def
      split: option.splits list.splits)

text \<open>Two stores agree up to the links when they differ in parent keys and categories only.\<close>

definition same_text :: "heap \<Rightarrow> heap \<Rightarrow> bool" where
  "same_text h h' = (\<forall>a. full_text (h' a) = full_text (h a) \<and> display_name (h' a) = display_name (h a)
      \<and> pages (h' a) = pages (h a))"

lemma id_loop_cong: "same_text h h' \<Longrightarrow> id_loop h' ord p best = id_loop h ord p best"
  by (induction ord arbitrary: best) (auto simp: same_text_def min_page_def)

lemma supra_loop_cong: "same_text h h' \<Longrightarrow> supra_loop h' ord name = supra_loop h ord name"
  by (induction ord) (auto simp: same_text_def Let_def)

lemma pincite_loop_cong: "same_text h h' \<Longrightarrow> pincite_loop h' full vr = pincite_loop h full vr"
  by (induction full) (auto simp: same_text_def split: option.splits)

lemma target_cong: "same_text h h' \<Longrightarrow> target h' full ord sc = target h full ord sc"
  using id_loop_cong [of h h'] supra_loop_cong [of h h'] pincite_loop_cong [of h h']
  by (auto simp: target_def Let_def same_text_def min_page_def split: option.splits list.splits)

lemma id_loop_mem: "id_loop h ord p best = Some fc \<Longrightarrow> fc \<in> set ord \<or> best = Some fc"
  by (induction ord arbitrary: best) (auto split: if_splits)

lemma supra_loop_mem: "supra_loop h ord name = Some fc \<Longrightarrow> fc \<in> set ord"
  by (induction ord) (auto simp: Let_def split: if_splits)

lemma pincite_loop_mem: "pincite_loop h full vr = Some fc \<Longrightarrow> fc \<in> set full"
  by (induction full) (auto split: option.splits if_splits)

lemma target_mem: "target h full ord sc = Some fc \<Longrightarrow> fc \<in> set ord \<union> set full"
  using id_loop_mem [of h ord "min_page (h sc)" None fc] supra_loop_mem [of h ord _ fc]
    pincite_loop_mem [of h full _ fc]
  by (auto simp: target_def Let_def split: if_splits option.splits list.splits)

lemma resolve_loop_pointwise:
  assumes "set ord \<subseteq> set full" "set full \<inter> set shorts = {}"
  shows "resolve_loop h full ord shorts
           = (\<lambda>a. if a \<in> set shorts then link h (target h full ord a) a else h a)"
  using assms(2)
proof (induction shorts arbitrary: h)
  case Nil
  then show ?case by simp
next
  case (Cons sc rest)
  let ?h1 = "h(sc := link h (target h full ord sc) sc)"
  have st: "same_text h ?h1"
    by (auto simp: same_text_def link_def split: option.splits)
  have tg: "\<And>a. target ?h1 full ord a = target h full ord a"
    using target_cong [OF st] by simp
  have scf: "sc \<notin> set full" using Cons.prems by auto
  have lk: "\<And>a. link ?h1 (target h full ord a) a
      = (if a = sc then link h (target h full ord sc) sc else link h (target h full ord a) a)"
  proof -
    fix a
    show "link ?h1 (target h full ord a) a
      = (if a = sc then link h (target h full ord sc) sc else link h (target h full ord a) a)"
    proof (cases "target h full ord a")
      case None
      then show ?thesis by (simp add: link_def)
    next
      case (Some fc)
      then have "fc \<in> set full" using target_mem [OF Some] assms(1) by auto
      then have "fc \<noteq> sc" using scf by auto
      then show ?thesis using Some by (auto simp: link_def)
    qed
  qed
  have rest: "set full \<inter> set rest = {}" using Cons.prems by auto
  show ?case
    by (rule ext) (simp add: resolve_one_target Cons.IH [OF rest] tg lk)
qed

lemma resolve_short_forms_pointwise:
  assumes "set full \<inter> set shorts = {}"
  shows "resolve_short_forms h full shorts
           = (\<lambda>a. if a \<in> set shorts
                   then link h (target h full (sort_key (\<lambda>c. min_page (h c)) full) a) a
                   else h a)"
proof (cases "full = [] \<or> shorts = []")
  case True
  have "\<And>a. full = [] \<Longrightarrow> target h full (sort_key (\<lambda>c. min_page (h c)) full) a = None"
    by (simp add: target_def Let_def split: option.splits list.splits)
  then show ?thesis
    using True by (auto simp: resolve_short_forms_def link_def)
next
  case False
  then show ?thesis
    using resolve_loop_pointwise [of "sort_key (\<lambda>c. min_page (h c)) full" full shorts h] assms
    by (simp add: resolve_short_forms_def Let_def)
qed

lemma partition_disjoint:
  "\<forall>a \<in> set full. \<not> is_short_form (h a) \<Longrightarrow> \<forall>a \<in> set shorts. is_short_form (h a)
     \<Longrightarrow> set full \<inter> set shorts = {}"
  by auto

lemma id_loop_takeWhile:
  "id_loop h ord p best
     = (case takeWhile (\<lambda>fc. min_page (h fc) \<le> p) ord of [] \<Rightarrow> best | x # xs \<Rightarrow> Some (last (x # xs)))"
  by (induction ord arbitrary: best) (auto split: list.splits)

lemma takeWhile_filter_sorted:
  "sorted (map f xs) \<Longrightarrow> takeWhile (\<lambda>x. f x \<le> (p::int)) xs = filter (\<lambda>x. f x \<le> p) xs"
proof (induction xs)
  case Nil
  then show ?case by simp
next
  case (Cons x xs)
  show ?case
  proof (cases "f x \<le> p")
    case True
    then show ?thesis using Cons by simp
  next
    case False
    then have "\<forall>y \<in> set xs. \<not> f y \<le> p" using Cons.prems by auto
    then have "filter (\<lambda>x. f x \<le> p) xs = []" by (simp add: filter_empty_conv)
    then show ?thesis using False by simp
  qed
qed

lemma id_loop_last_filter:
  "id_loop h (sort_key (\<lambda>c. min_page (h c)) full) p None
     = (case filter (\<lambda>fc. min_page (h fc) \<le> p) (sort_key (\<lambda>c. min_page (h c)) full) of
          [] \<Rightarrow> None | x # xs \<Rightarrow> Some (last (x # xs)))"
  using takeWhile_filter_sorted [of "\<lambda>c. min_page (h c)" "sort_key (\<lambda>c. min_page (h c)) full" p]
  by (simp add: id_loop_takeWhile)

lemma pincite_loop_find:
  "pincite_loop h full vr
     = find (\<lambda>fc. vol_reporter (re_search VOL_REPORTER_RE (full_text (h fc))) = Some vr) full"
  by (induction full) (auto split: option.splits)

text \<open>A store for concrete runs: two full citations, an \<^verbatim>\<open>Id.\<close> form and a short pincite.\<close>

definition ex_case :: Citation where
  "ex_case = \<lparr>full_text = ''A v. B, 1 F. 2'', display_name = ''A v. B, 1 F. 2'',
     category = CASES, pages = [1], is_primary = False, is_short_form = False,
     parent_key = None, normalized_key = ''1_f_2'', confidence = 1, sort_key_c = []\<rparr>"

definition ex_statute :: Citation where
  "ex_statute = \<lparr>full_text = ''42 USC 7'', display_name = ''42 USC 7'',
     category = STATUTES, pages = [3], is_primary = False, is_short_form = False,
     parent_key = None, normalized_key = ''42_usc_7'', confidence = 1, sort_key_c = []\<rparr>"

definition ex_id :: Citation where
  "ex_id = \<lparr>full_text = ''Id. at 5'', display_name = ''Id. at 5'',
     category = CASES, pages = [2], is_primary = False, is_short_form = True,
     parent_key = None, normalized_key = [], confidence = 1, sort_key_c = []\<rparr>"

definition ex_pincite :: Citation where
  "ex_pincite = \<lparr>full_text = ''42 USC at 9'', display_name = ''42 USC at 9'',
     category = CASES, pages = [4], is_primary = False, is_short_form = True,
     parent_key = None, normalized_key = [], confidence = 1, sort_key_c = []\<rparr>"

definition ex_heap :: heap where
  "ex_heap a = (if a = 0 then ex_case else if a = 1 then ex_statute
                else if a = 2 then ex_id else ex_pincite)"

text \<open>
  C10. Frame property of short-form resolution: when \<^verbatim>\<open>full_cites\<close> holds full citations
  and \<^verbatim>\<open>short_cites\<close> holds short forms, as their names and the documentation of the
  function say, the call leaves every object of \<^verbatim>\<open>full_cites\<close>, and every object outside
  \<^verbatim>\<open>short_cites\<close>, as it was, and changes at most the parent key and the category of
  any object.
\<close>

theorem C10_resolve_frame:
  assumes "\<forall>a \<in> set full_cites. \<not> is_short_form (h a)"
    and "\<forall>a \<in> set short_cites. is_short_form (h a)"
  shows "(\<forall>a \<in> set full_cites. resolve_short_forms h full_cites short_cites a = h a)
    \<and> (\<forall>a. a \<notin> set short_cites \<longrightarrow> resolve_short_forms h full_cites short_cites a = h a)
    \<and> (\<forall>a. resolve_short_forms h full_cites short_cites a
          = (h a)\<lparr>parent_key := parent_key (resolve_short_forms h full_cites short_cites a),
                   category := category (resolve_short_forms h full_cites short_cites a)\<rparr>)"
proof -
  have d: "set full_cites \<inter> set short_cites = {}"
    using partition_disjoint [OF assms] .
  have frame: "\<forall>a. a \<notin> set short_cites \<longrightarrow> resolve_short_forms h full_cites short_cites a = h a"
    by (simp add: resolve_short_forms_pointwise [OF d])
  have fulls: "\<forall>a \<in> set full_cites. resolve_short_forms h full_cites short_cites a = h a"
    using frame d by auto
  have fields: "\<forall>a. resolve_short_forms h full_cites short_cites a
          = (h a)\<lparr>parent_key := parent_key (resolve_short_forms h full_cites short_cites a),
                   category := category (resolve_short_forms h full_cites short_cites a)\<rparr>"
    by (simp add: resolve_short_forms_pointwise [OF d] link_def split: option.splits)
  show ?thesis
    using frame fulls fields by blast
qed

theorem C10_resolve_frame_witness:
  "\<not> is_short_form (ex_heap 0) \<and> \<not> is_short_form (ex_heap 1)
   \<and> is_short_form (ex_heap 2) \<and> is_short_form (ex_heap 3)
   \<and> resolve_short_forms ex_heap [0, 1] [2, 3] 0 = ex_case
   \<and> resolve_short_forms ex_heap [0, 1] [2, 3] 1 = ex_statute
   \<and> parent_key (resolve_short_forms ex_heap [0, 1] [2, 3] 2) = Some ''1_f_2''"
proof -
  have f: "\<forall>a \<in> set [0, 1]. \<not> is_short_form (ex_heap a)"
    by (simp add: ex_heap_def ex_case_def ex_statute_def)
  have s: "\<forall>a \<in> set [2, 3]. is_short_form (ex_heap a)"
    by (simp add: ex_heap_def ex_id_def ex_pincite_def)
  have p: "parent_key (resolve_short_forms ex_heap [0, 1] [2, 3] 2) = Some ''1_f_2''"
    by code_simp
  have e: "ex_heap 0 = ex_case" "ex_heap 1 = ex_statute" "ex_heap (Suc 0) = ex_statute"
    "ex_heap 2 = ex_id" "ex_heap 3 = ex_pincite"
    by (simp_all add: ex_heap_def)
  have a: "resolve_short_forms ex_heap [0, 1] [2, 3] 0 = ex_heap 0
      \<and> resolve_short_forms ex_heap [0, 1] [2, 3] 1 = ex_heap 1"
    using C10_resolve_frame [OF f s] by simp
  show ?thesis
    using f s p a by (simp add: e)
qed

text \<open>
  C4. \<^verbatim>\<open>Id.\<close>/\<^verbatim>\<open>Ibid.\<close> resolution: a short form whose stripped text begins with \<^verbatim>\<open>Id.\<close> or
  \<^verbatim>\<open>Ibid.\<close>, in any case of the letters, gets the key and the category of the last full
  citation, in the order by minimum page, whose minimum page is at most its own; when
  there is none, the short form is left as it was.
\<close>

theorem C4_id_resolution:
  assumes "\<forall>a \<in> set full_cites. \<not> is_short_form (h a)"
    and "\<forall>a \<in> set short_cites. is_short_form (h a)"
    and "sc \<in> set short_cites"
    and "is_id_cite (strip (full_text (h sc)))"
  shows "resolve_short_forms h full_cites short_cites sc =
     (case filter (\<lambda>fc. min_page (h fc) \<le> min_page (h sc))
             (sort_key (\<lambda>c. min_page (h c)) full_cites) of
        [] \<Rightarrow> h sc
      | fc # fcs \<Rightarrow> (h sc)\<lparr>parent_key := Some (normalized_key (h (last (fc # fcs)))),
                              category := category (h (last (fc # fcs)))\<rparr>)"
proof -
  have d: "set full_cites \<inter> set short_cites = {}"
    using partition_disjoint [OF assms(1,2)] .
  have t: "target h full_cites (sort_key (\<lambda>c. min_page (h c)) full_cites) sc
      = id_loop h (sort_key (\<lambda>c. min_page (h c)) full_cites) (min_page (h sc)) None"
    using assms(4) by (simp add: target_def Let_def)
  show ?thesis
    using assms(3)
    by (simp add: resolve_short_forms_pointwise [OF d] t id_loop_last_filter link_def
        split: list.splits)
qed

theorem C4_id_resolution_witness:
  "\<not> is_short_form (ex_heap 0) \<and> \<not> is_short_form (ex_heap 1)
   \<and> is_short_form (ex_heap 2) \<and> is_short_form (ex_heap 3)
   \<and> is_id_cite (strip (full_text (ex_heap 2)))
   \<and> resolve_short_forms ex_heap [0, 1] [2, 3] 2
       = ex_id\<lparr>parent_key := Some ''1_f_2'', category := CASES\<rparr>"
proof -
  have f: "\<forall>a \<in> set [0, 1]. \<not> is_short_form (ex_heap a)"
    by (simp add: ex_heap_def ex_case_def ex_statute_def)
  have s: "\<forall>a \<in> set [2, 3]. is_short_form (ex_heap a)"
    by (simp add: ex_heap_def ex_id_def ex_pincite_def)
  have m: "(2::nat) \<in> set [2, 3]" by simp
  have i: "is_id_cite (strip (full_text (ex_heap 2)))"
    by code_simp
  have r: "(case filter (\<lambda>fc. min_page (ex_heap fc) \<le> min_page (ex_heap 2))
             (sort_key (\<lambda>c. min_page (ex_heap c)) [0, 1]) of
        [] \<Rightarrow> ex_heap 2
      | fc # fcs \<Rightarrow> (ex_heap 2)\<lparr>parent_key := Some (normalized_key (ex_heap (last (fc # fcs)))),
                              category := category (ex_heap (last (fc # fcs)))\<rparr>)
      = ex_id\<lparr>parent_key := Some ''1_f_2'', category := CASES\<rparr>"
    by code_simp
  have e: "ex_heap 0 = ex_case" "ex_heap 1 = ex_statute" "ex_heap (Suc 0) = ex_statute"
    "ex_heap 2 = ex_id" "ex_heap 3 = ex_pincite"
    by (simp_all add: ex_heap_def)
  have c: "resolve_short_forms ex_heap [0, 1] [2, 3] 2
       = ex_id\<lparr>parent_key := Some ''1_f_2'', category := CASES\<rparr>"
    using C4_id_resolution [OF f s m i] r by simp
  show ?thesis
    using f s i c by (simp add: e)
qed

section \<open>What the patterns of the resolver match\<close>

lemma star_iter_class:
  assumes f: "\<And>s. f s = (case s of [] \<Rightarrow> [] | c # cs \<Rightarrow> if p c then [cs] else [])"
  shows "length s \<le> n \<Longrightarrow>
     star_iter n f s = map (\<lambda>i. drop i s) (rev [0..<Suc (length (takeWhile p s))])"
proof (induction s arbitrary: n)
  case Nil
  then show ?case by (cases n) (simp_all add: f)
next
  case (Cons c cs)
  then obtain m where n: "n = Suc m" and m: "length cs \<le> m"
    by (cases n) auto
  show ?case
  proof (cases "p c")
    case False
    then show ?thesis by (simp add: n f)
  next
    case True
    let ?k = "length (takeWhile p cs)"
    have up: "[0..<Suc (Suc ?k)] = 0 # map Suc [0..<Suc ?k]"
      by (simp only: map_Suc_upt upt_conv_Cons [of 0 "Suc (Suc ?k)"])
    have "star_iter n f (c # cs) = star_iter m f cs @ [c # cs]"
      using True by (simp add: n f)
    also have "\<dots> = map (\<lambda>i. drop i cs) (rev [0..<Suc ?k]) @ [c # cs]"
      by (simp only: Cons.IH [OF m])
    also have "\<dots> = map (\<lambda>i. drop i (c # cs)) (rev (0 # map Suc [0..<Suc ?k]))"
      by (simp add: rev_map comp_def)
    finally show ?thesis
      using True up by simp
  qed
qed

text \<open>
  The greedy repetition of a class, as a list of candidates: the longest run first,
  then one character less at a time, the empty repetition last.
\<close>

lemma rests_star_class:
  "rests (Star (Sym p)) s = map (\<lambda>i. drop i s) (rev [0..<Suc (length (takeWhile p s))])"
  unfolding rests.simps by (rule star_iter_class) simp_all

lemma rests_rep1_class_Nil: "rests (Rep1 (Sym p)) [] = []"
  by (simp add: Rep1_def)

lemma rests_rep1_class_no: "\<not> p c \<Longrightarrow> rests (Rep1 (Sym p)) (c # cs) = []"
  by (simp add: Rep1_def)

lemma rests_rep1_class_yes:
  "p c \<Longrightarrow> rests (Rep1 (Sym p)) (c # cs)
     = map (\<lambda>i. drop i cs) (rev [0..<Suc (length (takeWhile p cs))])"
  using rests_star_class [of p cs] by (simp add: Rep1_def)

lemma rests_rep1_class:
  "rests (Rep1 (Sym p)) s = map (\<lambda>i. drop i s) (rev [1..<Suc (length (takeWhile p s))])"
proof (cases s)
  case Nil
  then show ?thesis by (simp add: Rep1_def)
next
  case (Cons c cs)
  show ?thesis
  proof (cases "p c")
    case False
    then show ?thesis using Cons by (simp add: Rep1_def)
  next
    case True
    let ?k = "length (takeWhile p cs)"
    have "[1..<Suc (Suc ?k)] = map Suc [0..<Suc ?k]"
      by (simp only: map_Suc_upt One_nat_def)
    then have "map (\<lambda>i. drop i (c # cs)) (rev [1..<Suc (Suc ?k)])
        = map (\<lambda>i. drop i cs) (rev [0..<Suc ?k])"
      by (simp add: rev_map comp_def)
    then show ?thesis
      using True Cons rests_rep1_class_yes [of p c cs] by simp
  qed
qed

text \<open>
  A part that is a repeated class, followed by parts that cannot start inside the run
  of the class: only the longest repetition leads on.
\<close>

lemma groups_at_rep1_class:
  assumes "\<And>i. 1 \<le> i \<Longrightarrow> i < length (takeWhile p s) \<Longrightarrow> groups_at rs (drop i s) = []"
  shows "groups_at (Rep1 (Sym p) # rs) s
     = (if takeWhile p s = [] then []
        else map (\<lambda>(gs, rest). (takeWhile p s # gs, rest)) (groups_at rs (dropWhile p s)))"
proof (cases "takeWhile p s = []")
  case True
  then show ?thesis by (simp add: rests_rep1_class)
next
  case False
  let ?k = "length (takeWhile p s)"
  let ?G = "\<lambda>s'. map (\<lambda>(gs, rest). (take (length s - length s') s # gs, rest)) (groups_at rs s')"
  have k: "1 \<le> ?k" using False by (simp add: Suc_leI)
  have kl: "?k \<le> length s" by (rule length_takeWhile_le)
  have split: "rev [1..<Suc ?k] = ?k # rev [1..<?k]"
    using k by simp
  have tail: "concat (map (\<lambda>i. ?G (drop i s)) (rev [1..<?k])) = []"
    using assms by auto
  have "groups_at (Rep1 (Sym p) # rs) s = concat (map (\<lambda>i. ?G (drop i s)) (rev [1..<Suc ?k]))"
    by (simp add: rests_rep1_class comp_def)
  also have "\<dots> = ?G (drop ?k s)"
    unfolding split using tail by simp
  also have "\<dots> = map (\<lambda>(gs, rest). (takeWhile p s # gs, rest)) (groups_at rs (dropWhile p s))"
    using kl by (simp add: dropWhile_eq_drop takeWhile_eq_take [symmetric])
  finally show ?thesis using False by simp
qed

lemma groups_at_no_start: "rests r s = [] \<Longrightarrow> groups_at (r # rs) s = []"
  by simp

lemma hd_drop_takeWhile:
  assumes "i < length (takeWhile p s)"
  shows "\<exists>c cs. drop i s = c # cs \<and> p c"
proof -
  have il: "i < length s" using assms length_takeWhile_le [of p s] by simp
  have "p (s ! i)"
    using assms by (metis nth_mem set_takeWhileD takeWhile_nth)
  moreover have "drop i s = s ! i # drop (Suc i) s"
    using il by (simp add: Cons_nth_drop_Suc)
  ultimately show ?thesis by blast
qed

lemma digit_not_space: "isdigit c \<Longrightarrow> \<not> isspace c"
  by (auto simp: isdigit_def isspace_def space_chars_def)

lemma period_not_space: "\<not> isspace CHR ''.''"
  by (simp add: isspace_def space_chars_def)

lemma star_iter_stop: "f s = [] \<Longrightarrow> star_iter n f s = [s]"
  by (cases n) simp_all

lemma rests_period_token:
  assumes "s = [] \<or> isspace (hd s)"
  shows "rests (Cat (Chr CHR ''.'') (Rep1 nonspace)) s = []"
proof (cases s)
  case Nil
  then show ?thesis by (simp add: Chr_def)
next
  case (Cons c cs)
  then have "isspace c" using assms by simp
  then have "c \<noteq> CHR ''.''" using period_not_space by auto
  then show ?thesis using Cons by (simp add: Chr_def)
qed

text \<open>The reporter part \<^verbatim>\<open>\S+(?:\.\S+)*\<close>: its first match is the whole token up to the next whitespace.\<close>

definition REPORTER_PART :: rx where
  "REPORTER_PART = Cat (Rep1 nonspace) (Star (Cat (Chr CHR ''.'') (Rep1 nonspace)))"

lemma rests_reporter_part:
  "rests REPORTER_PART s
     = (if takeWhile (\<lambda>c. \<not> isspace c) s = [] then []
        else dropWhile (\<lambda>c. \<not> isspace c) s # tl (rests REPORTER_PART s))"
proof (cases "takeWhile (\<lambda>c. \<not> isspace c) s = []")
  case True
  then show ?thesis
    by (simp add: REPORTER_PART_def nonspace_def rests_rep1_class)
next
  case False
  let ?q = "\<lambda>c. \<not> isspace c"
  let ?m = "length (takeWhile ?q s)"
  let ?X = "Cat (Chr CHR ''.'') (Rep1 nonspace)"
  let ?r = "dropWhile ?q s"
  have m: "1 \<le> ?m" using False by (simp add: Suc_leI)
  have split: "rev [1..<Suc ?m] = ?m # rev [1..<?m]" using m by simp
  have r: "?r = [] \<or> isspace (hd ?r)"
    using hd_dropWhile [of ?q s] by auto
  have stop: "rests (Star ?X) ?r = [?r]"
    unfolding rests.simps(5) by (rule star_iter_stop) (rule rests_period_token [OF r])
  have "rests REPORTER_PART s = concat (map (rests (Star ?X)) (rests (Rep1 (Sym ?q)) s))"
    by (simp add: REPORTER_PART_def nonspace_def)
  also have "\<dots> = concat (map (rests (Star ?X)) (map (\<lambda>i. drop i s) (?m # rev [1..<?m])))"
    unfolding rests_rep1_class split ..
  also have "\<dots> = ?r # concat (map (rests (Star ?X)) (map (\<lambda>i. drop i s) (rev [1..<?m])))"
    using stop by (simp add: dropWhile_eq_drop)
  finally have "rests REPORTER_PART s
      = ?r # concat (map (rests (Star ?X)) (map (\<lambda>i. drop i s) (rev [1..<?m])))" .
  then show ?thesis using False by simp
qed

lemma groups_at_reporter_part:
  "groups_at [REPORTER_PART] s
     = (if takeWhile (\<lambda>c. \<not> isspace c) s = [] then []
        else ([takeWhile (\<lambda>c. \<not> isspace c) s], dropWhile (\<lambda>c. \<not> isspace c) s)
               # tl (groups_at [REPORTER_PART] s))"
proof -
  let ?q = "\<lambda>c. \<not> isspace c"
  have g: "groups_at [REPORTER_PART] s
      = map (\<lambda>s'. ([take (length s - length s') s], s')) (rests REPORTER_PART s)"
    by (simp add: comp_def)
  show ?thesis
  proof (cases "takeWhile ?q s = []")
    case True
    then show ?thesis using g rests_reporter_part [of s] by simp
  next
    case False
    then obtain t where t: "rests REPORTER_PART s = dropWhile ?q s # t"
      using rests_reporter_part [of s] by auto
    have "take (length s - length (dropWhile ?q s)) s = takeWhile ?q s"
      using length_takeWhile_le [of ?q s]
      by (simp add: dropWhile_eq_drop takeWhile_eq_take [symmetric])
    then have "groups_at [REPORTER_PART] s
        = ([takeWhile ?q s], dropWhile ?q s) # map (\<lambda>s'. ([take (length s - length s') s], s')) t"
      unfolding g t by simp
    then show ?thesis using False by simp
  qed
qed

text \<open>
  The pair at the start of a text, in the words of the claim: the longest run of digits,
  then whitespace, then the token up to the next whitespace.
\<close>

definition leading_pair :: "string \<Rightarrow> (string \<times> string) option" where
  "leading_pair s =
     (let vol = takeWhile isdigit s;
          s1 = dropWhile isdigit s;
          gap = takeWhile isspace s1;
          s2 = dropWhile isspace s1;
          rep = takeWhile (\<lambda>c. \<not> isspace c) s2
      in if vol \<noteq> [] \<and> gap \<noteq> [] \<and> rep \<noteq> [] then Some (vol, rep) else None)"

lemma VOL_REPORTER_RE_parts: "VOL_REPORTER_RE = [Rep1 (Sym isdigit), Rep1 (Sym isspace), REPORTER_PART]"
  by (simp add: VOL_REPORTER_RE_def digits_def spaces_def REPORTER_PART_def)

lemma groups_at_spaces_reporter:
  "groups_at [Rep1 (Sym isspace), REPORTER_PART] s
     = (if takeWhile isspace s = [] then []
        else map (\<lambda>(gs, rest). (takeWhile isspace s # gs, rest))
               (groups_at [REPORTER_PART] (dropWhile isspace s)))"
proof (rule groups_at_rep1_class)
  fix i assume "1 \<le> i" "i < length (takeWhile isspace s)"
  then obtain c cs where d: "drop i s = c # cs" "isspace c"
    using hd_drop_takeWhile by blast
  then have "takeWhile (\<lambda>c. \<not> isspace c) (drop i s) = []" by simp
  then show "groups_at [REPORTER_PART] (drop i s) = []"
    using groups_at_reporter_part [of "drop i s"] by simp
qed

lemma groups_at_vol_reporter:
  "groups_at VOL_REPORTER_RE s
     = (if takeWhile isdigit s = [] then []
        else map (\<lambda>(gs, rest). (takeWhile isdigit s # gs, rest))
               (groups_at [Rep1 (Sym isspace), REPORTER_PART] (dropWhile isdigit s)))"
  unfolding VOL_REPORTER_RE_parts
proof (rule groups_at_rep1_class)
  fix i assume "1 \<le> i" "i < length (takeWhile isdigit s)"
  then obtain c cs where d: "drop i s = c # cs" "isdigit c"
    using hd_drop_takeWhile by blast
  then have "takeWhile isspace (drop i s) = []"
    using digit_not_space by simp
  then show "groups_at [Rep1 (Sym isspace), REPORTER_PART] (drop i s) = []"
    using groups_at_spaces_reporter [of "drop i s"] by simp
qed

lemma re_match_vol_reporter:
  "re_match VOL_REPORTER_RE s
     = (case leading_pair s of
          None \<Rightarrow> None
        | Some (vol, rep) \<Rightarrow> Some [vol, takeWhile isspace (dropWhile isdigit s), rep])"
proof -
  let ?s1 = "dropWhile isdigit s"
  let ?s2 = "dropWhile isspace ?s1"
  let ?q = "\<lambda>c. \<not> isspace c"
  have g1: "groups_at VOL_REPORTER_RE s
     = (if takeWhile isdigit s = [] then []
        else map (\<lambda>(gs, rest). (takeWhile isdigit s # gs, rest))
               (groups_at [Rep1 (Sym isspace), REPORTER_PART] ?s1))"
    by (rule groups_at_vol_reporter)
  have g2: "groups_at [Rep1 (Sym isspace), REPORTER_PART] ?s1
     = (if takeWhile isspace ?s1 = [] then []
        else map (\<lambda>(gs, rest). (takeWhile isspace ?s1 # gs, rest))
               (groups_at [REPORTER_PART] ?s2))"
    by (rule groups_at_spaces_reporter)
  show ?thesis
  proof (cases "takeWhile isdigit s = [] \<or> takeWhile isspace ?s1 = [] \<or> takeWhile ?q ?s2 = []")
    case True
    have g3: "takeWhile ?q ?s2 = [] \<Longrightarrow> groups_at [REPORTER_PART] ?s2 = []"
      using groups_at_reporter_part [of ?s2] by (simp del: groups_at.simps)
    have "groups_at VOL_REPORTER_RE s = []"
    proof (cases "takeWhile isdigit s = []")
      case True
      then show ?thesis unfolding g1 by simp
    next
      case d: False
      show ?thesis
      proof (cases "takeWhile isspace ?s1 = []")
        case True
        then show ?thesis unfolding g1 g2 using d by simp
      next
        case False
        then have "takeWhile ?q ?s2 = []" using True d by simp
        then show ?thesis unfolding g1 g2 using g3 d False by simp
      qed
    qed
    moreover have "leading_pair s = None"
      using True by (auto simp: leading_pair_def Let_def)
    ultimately show ?thesis
      by (simp add: re_match_def)
  next
    case False
    then obtain t where g3: "groups_at [REPORTER_PART] ?s2
        = ([takeWhile ?q ?s2], dropWhile ?q ?s2) # t"
      using groups_at_reporter_part [of ?s2] by (auto simp del: groups_at.simps)
    have "groups_at VOL_REPORTER_RE s
        = ([takeWhile isdigit s, takeWhile isspace ?s1, takeWhile ?q ?s2], dropWhile ?q ?s2)
            # map (\<lambda>(gs, rest). (takeWhile isdigit s # gs, rest))
                (map (\<lambda>(gs, rest). (takeWhile isspace ?s1 # gs, rest)) t)"
      unfolding g1 g2 g3 using False by simp
    moreover have "leading_pair s = Some (takeWhile isdigit s, takeWhile ?q ?s2)"
      using False by (simp add: leading_pair_def Let_def)
    ultimately show ?thesis
      by (simp add: re_match_def)
  qed
qed

text \<open>
  The reporter of a pair as the claim compares it: whitespace and periods stripped, then
  lowercased. The first pair of a text is the pair at the leftmost position that has one.
\<close>

definition normal_reporter :: "string \<Rightarrow> string" where
  "normal_reporter rep = lower (filter (\<lambda>c. \<not> isspace c \<and> c \<noteq> CHR ''.'') rep)"

fun first_pair :: "string \<Rightarrow> (string \<times> string) option" where
  "first_pair [] = None"
| "first_pair (c # cs) =
     (case leading_pair (c # cs) of Some vr \<Rightarrow> Some vr | None \<Rightarrow> first_pair cs)"

lemma letters_not_space_or_period:
  "x \<in> set upper_letters \<union> set lower_letters \<Longrightarrow> \<not> space_or_period x"
  by (auto simp: upper_letters_def lower_letters_def space_or_period_def isspace_def space_chars_def)

lemma space_or_period_lower_char: "space_or_period (lower_char c) = space_or_period c"
proof (cases "map_of (zip upper_letters lower_letters) c")
  case None
  then show ?thesis by (simp add: lower_char_def)
next
  case (Some l)
  then have "(c, l) \<in> set (zip upper_letters lower_letters)" by (rule map_of_SomeD)
  then have "c \<in> set upper_letters" "l \<in> set lower_letters"
    by (auto dest: set_zip_leftD set_zip_rightD)
  then have "\<not> space_or_period c" "\<not> space_or_period l"
    using letters_not_space_or_period by auto
  then show ?thesis using Some by (simp add: lower_char_def)
qed

lemma delete_lower_normal: "delete_chars space_or_period (lower rep) = normal_reporter rep"
proof -
  have "filter (\<lambda>c. \<not> space_or_period c) (map lower_char rep)
      = map lower_char (filter (\<lambda>c. \<not> space_or_period c) rep)"
    by (simp add: filter_map comp_def space_or_period_lower_char)
  then show ?thesis
    by (simp add: delete_chars_def lower_def normal_reporter_def space_or_period_def)
qed

lemma vol_reporter_match:
  "vol_reporter (re_match VOL_REPORTER_RE s)
     = (case leading_pair s of None \<Rightarrow> None | Some (vol, rep) \<Rightarrow> Some (vol, normal_reporter rep))"
  by (simp add: re_match_vol_reporter vol_reporter_def delete_lower_normal split: option.splits)

lemma leading_pair_Nil: "leading_pair [] = None"
  by (simp add: leading_pair_def)

lemma vol_reporter_search:
  "vol_reporter (re_search VOL_REPORTER_RE s)
     = (case first_pair s of None \<Rightarrow> None | Some (vol, rep) \<Rightarrow> Some (vol, normal_reporter rep))"
proof (induction s)
  case Nil
  then show ?case
    using vol_reporter_match [of "[]"] by (simp add: leading_pair_Nil)
next
  case (Cons c cs)
  show ?case
  proof (cases "leading_pair (c # cs)")
    case None
    then have "re_match VOL_REPORTER_RE (c # cs) = None"
      by (simp add: re_match_vol_reporter)
    then show ?thesis using None Cons.IH by simp
  next
    case (Some vr)
    then obtain g where "re_match VOL_REPORTER_RE (c # cs) = Some g"
      by (cases vr) (simp add: re_match_vol_reporter)
    then show ?thesis
      using Some vol_reporter_match [of "c # cs"] by simp
  qed
qed

lemma pincite_loop_pairs:
  "pincite_loop h full (vol, normal_reporter rep)
     = find (\<lambda>fc. case first_pair (full_text (h fc)) of
                    None \<Rightarrow> False
                  | Some (fvol, frep) \<Rightarrow> fvol = vol \<and> normal_reporter frep = normal_reporter rep)
         full"
proof -
  have "(\<lambda>fc. vol_reporter (re_search VOL_REPORTER_RE (full_text (h fc))) = Some (vol, normal_reporter rep))
      = (\<lambda>fc. case first_pair (full_text (h fc)) of
                 None \<Rightarrow> False
               | Some (fvol, frep) \<Rightarrow> fvol = vol \<and> normal_reporter frep = normal_reporter rep)"
    by (rule ext) (auto simp: vol_reporter_search split: option.splits)
  then show ?thesis
    by (simp only: pincite_loop_find)
qed

text \<open>A store for concrete runs of the short pincite: three full citations and one short form.\<close>

definition ex_other_volume :: Citation where
  "ex_other_volume = \<lparr>full_text = ''A v. B, 12 Mich. 1'', display_name = ''A v. B, 12 Mich. 1'',
     category = CASES, pages = [1], is_primary = False, is_short_form = False,
     parent_key = None, normalized_key = ''12_mich_1'', confidence = 1, sort_key_c = []\<rparr>"

definition ex_review :: Citation where
  "ex_review = \<lparr>full_text = ''Doe, 123 Mich. L. Rev. 45'', display_name = ''Doe, 123 Mich. L. Rev. 45'',
     category = OTHER, pages = [2], is_primary = False, is_short_form = False,
     parent_key = None, normalized_key = ''doe,_123_mich_l_rev_45'', confidence = 1,
     sort_key_c = []\<rparr>"

definition ex_later :: Citation where
  "ex_later = \<lparr>full_text = ''Roe v. Poe, 123 MICH 9'', display_name = ''Roe v. Poe, 123 MICH 9'',
     category = CASES, pages = [3], is_primary = False, is_short_form = False,
     parent_key = None, normalized_key = ''123_mich_9'', confidence = 1, sort_key_c = []\<rparr>"

definition ex_short :: Citation where
  "ex_short = \<lparr>full_text = ''123 mich. at 46'', display_name = ''123 mich. at 46'',
     category = CASES, pages = [4], is_primary = False, is_short_form = True,
     parent_key = None, normalized_key = [], confidence = 1, sort_key_c = []\<rparr>"

definition ex_store :: heap where
  "ex_store a = (if a = 0 then ex_other_volume else if a = 1 then ex_review
                 else if a = 2 then ex_later else ex_short)"

text \<open>
  C6. Short-pincite resolution: a short form that is neither an \<^verbatim>\<open>Id.\<close> form nor a
  \<^verbatim>\<open>supra\<close> form, and whose stripped text starts with a volume and a reporter token,
  gets the key and the category of the first full citation, in the order of
  \<^verbatim>\<open>full_cites\<close>, whose own first volume and reporter match: the volumes are equal, and
  the reporters are equal after stripping whitespace and periods and lowercasing. When
  the short form has no such pair at its start, or no full citation matches, it is left
  as it was.
\<close>

theorem C6_short_pincite_resolution:
  assumes "\<forall>a \<in> set full_cites. \<not> is_short_form (h a)"
    and "\<forall>a \<in> set short_cites. is_short_form (h a)"
    and "sc \<in> set short_cites"
    and "\<not> is_id_cite (strip (full_text (h sc)))"
    and "\<not> is_supra_cite (strip (full_text (h sc)))"
  shows "resolve_short_forms h full_cites short_cites sc =
     (case leading_pair (strip (full_text (h sc))) of
        None \<Rightarrow> h sc
      | Some (vol, rep) \<Rightarrow>
          (case find (\<lambda>fc. case first_pair (full_text (h fc)) of
                             None \<Rightarrow> False
                           | Some (fvol, frep) \<Rightarrow>
                               fvol = vol \<and> normal_reporter frep = normal_reporter rep)
                  full_cites of
             None \<Rightarrow> h sc
           | Some fc \<Rightarrow> (h sc)\<lparr>parent_key := Some (normalized_key (h fc)),
                                 category := category (h fc)\<rparr>))"
proof -
  have d: "set full_cites \<inter> set short_cites = {}"
    using partition_disjoint [OF assms(1,2)] .
  have t: "target h full_cites (sort_key (\<lambda>c. min_page (h c)) full_cites) sc
      = (case leading_pair (strip (full_text (h sc))) of
           None \<Rightarrow> None
         | Some (vol, rep) \<Rightarrow> pincite_loop h full_cites (vol, normal_reporter rep))"
    using assms(4,5) by (simp add: target_def Let_def vol_reporter_match split: option.splits)
  have r: "resolve_short_forms h full_cites short_cites sc
      = link h (target h full_cites (sort_key (\<lambda>c. min_page (h c)) full_cites) sc) sc"
    using assms(3) by (simp add: resolve_short_forms_pointwise [OF d])
  show ?thesis
    unfolding r t
    by (simp add: pincite_loop_pairs link_def split: option.splits)
qed

theorem C6_short_pincite_resolution_witness:
  "\<not> is_short_form (ex_store 0) \<and> \<not> is_short_form (ex_store 1) \<and> \<not> is_short_form (ex_store 2)
   \<and> is_short_form (ex_store 3)
   \<and> \<not> is_id_cite (strip (full_text (ex_store 3)))
   \<and> \<not> is_supra_cite (strip (full_text (ex_store 3)))
   \<and> leading_pair (strip (full_text (ex_store 3))) = Some (''123'', ''mich.'')
   \<and> first_pair (full_text (ex_store 0)) = Some (''12'', ''Mich.'')
   \<and> first_pair (full_text (ex_store 1)) = Some (''123'', ''Mich.'')
   \<and> first_pair (full_text (ex_store 2)) = Some (''123'', ''MICH'')
   \<and> normal_reporter ''Mich.'' = ''mich'' \<and> normal_reporter ''mich.'' = ''mich''
   \<and> normal_reporter ''MICH'' = ''mich''
   \<and> resolve_short_forms ex_store [0, 1, 2] [3] 3
       = ex_short\<lparr>parent_key := Some ''doe,_123_mich_l_rev_45'', category := OTHER\<rparr>"
proof -
  have f: "\<forall>a \<in> set [0, 1, 2]. \<not> is_short_form (ex_store a)"
    by (simp add: ex_store_def ex_other_volume_def ex_review_def ex_later_def)
  have s: "\<forall>a \<in> set [3]. is_short_form (ex_store a)"
    by (simp add: ex_store_def ex_short_def)
  have m: "(3::nat) \<in> set [3]" by simp
  have i: "\<not> is_id_cite (strip (full_text (ex_store 3)))"
    by code_simp
  have j: "\<not> is_supra_cite (strip (full_text (ex_store 3)))"
    by code_simp
  have p: "leading_pair (strip (full_text (ex_store 3))) = Some (''123'', ''mich.'')"
    "first_pair (full_text (ex_store 0)) = Some (''12'', ''Mich.'')"
    "first_pair (full_text (ex_store 1)) = Some (''123'', ''Mich.'')"
    "first_pair (full_text (ex_store 2)) = Some (''123'', ''MICH'')"
    "normal_reporter ''Mich.'' = ''mich''" "normal_reporter ''mich.'' = ''mich''"
    "normal_reporter ''MICH'' = ''mich''"
    by code_simp+
  have e: "ex_store 0 = ex_other_volume" "ex_store 1 = ex_review" "ex_store (Suc 0) = ex_review"
    "ex_store 2 = ex_later" "ex_store 3 = ex_short"
    by (simp_all add: ex_store_def)
  have r: "(case leading_pair (strip (full_text (ex_store 3))) of
        None \<Rightarrow> ex_store 3
      | Some (vol, rep) \<Rightarrow>
          (case find (\<lambda>fc. case first_pair (full_text (ex_store fc)) of
                             None \<Rightarrow> False
                           | Some (fvol, frep) \<Rightarrow>
                               fvol = vol \<and> normal_reporter frep = normal_reporter rep)
                  [0, 1, 2] of
             None \<Rightarrow> ex_store 3
           | Some fc \<Rightarrow> (ex_store 3)\<lparr>parent_key := Some (normalized_key (ex_store fc)),
                                 category := category (ex_store fc)\<rparr>))
      = ex_short\<lparr>parent_key := Some ''doe,_123_mich_l_rev_45'', category := OTHER\<rparr>"
    by code_simp
  have c: "resolve_short_forms ex_store [0, 1, 2] [3] 3
       = ex_short\<lparr>parent_key := Some ''doe,_123_mich_l_rev_45'', category := OTHER\<rparr>"
    using C6_short_pincite_resolution [OF f s m i j] r by simp
  show ?thesis
    using f s i j p c by (simp add: e)
qed

section \<open>Properties of the merger\<close>

subsection \<open>Page lists\<close>

definition pages_ok :: "Citation \<Rightarrow> bool" where
  "pages_ok c = (sorted (pages c) \<and> distinct (pages c))"

lemma set_merge_loop: "set (merge_loop qs ps) = set qs \<union> set ps"
  by (induction qs arbitrary: ps) auto

lemma distinct_merge_loop: "distinct ps \<Longrightarrow> distinct (merge_loop qs ps)"
  by (induction qs arbitrary: ps) auto

lemma set_absorb_pages: "set (absorb_pages qs ps) = set qs \<union> set ps"
  by (induction qs arbitrary: ps) auto

lemma distinct_absorb_pages: "distinct ps \<Longrightarrow> distinct (absorb_pages qs ps)"
  by (induction qs arbitrary: ps) auto

lemma sorted_absorb_pages: "sorted ps \<Longrightarrow> sorted (absorb_pages qs ps)"
  by (induction qs arbitrary: ps) auto

lemma pages_merge_pages:
  "sorted (pages (merge_pages self other))"
  "set (pages (merge_pages self other)) = set (pages self) \<union> set (pages other)"
  "distinct (pages self) \<Longrightarrow> distinct (pages (merge_pages self other))"
  by (auto simp: merge_pages_def set_merge_loop distinct_merge_loop)

lemma pages_ok_merge_pages: "pages_ok self \<Longrightarrow> pages_ok (merge_pages self other)"
  by (simp add: pages_ok_def pages_merge_pages)

lemma merge_pages_fields: "merge_pages self other = self\<lparr>pages := pages (merge_pages self other)\<rparr>"
  by (simp add: merge_pages_def)

lemma sorted_distinct_eq:
  "sorted xs \<Longrightarrow> distinct xs \<Longrightarrow> xs = sorted_list_of_set (set xs)"
  by (simp add: sorted_list_of_set.idem_if_sorted_distinct)

subsection \<open>The key map\<close>

text \<open>The dictionary built by the first loop depends on the keys of the objects only.\<close>

fun keys_loop :: "(nat \<Rightarrow> string) \<Rightarrow> key_map \<Rightarrow> nat list \<Rightarrow> key_map" where
  "keys_loop kf d [] = d"
| "keys_loop kf d (c # rest) =
     (case map_of d (kf c) of
        Some canon \<Rightarrow> keys_loop kf d rest
      | None \<Rightarrow> keys_loop kf (d @ [(kf c, c)]) rest)"

definition only_pages :: "heap \<Rightarrow> heap \<Rightarrow> bool" where
  "only_pages h h' = (\<forall>a. h' a = (h a)\<lparr>pages := pages (h' a)\<rparr>)"

lemma only_pages_refl: "only_pages h h"
  by (simp add: only_pages_def)

lemma only_pages_trans: "only_pages h h1 \<Longrightarrow> only_pages h1 h2 \<Longrightarrow> only_pages h h2"
  unfolding only_pages_def
proof
  fix a
  assume 1: "\<forall>a. h1 a = (h a)\<lparr>pages := pages (h1 a)\<rparr>" and 2: "\<forall>a. h2 a = (h1 a)\<lparr>pages := pages (h2 a)\<rparr>"
  have "h2 a = (h1 a)\<lparr>pages := pages (h2 a)\<rparr>" using 2 by blast
  also have "\<dots> = ((h a)\<lparr>pages := pages (h1 a)\<rparr>)\<lparr>pages := pages (h2 a)\<rparr>" using 1 by metis
  finally show "h2 a = (h a)\<lparr>pages := pages (h2 a)\<rparr>" by simp
qed

lemma only_pages_key: "only_pages h h' \<Longrightarrow> normalized_key (h' a) = normalized_key (h a)"
  unfolding only_pages_def by (metis Citation.select_convs(8) Citation.surjective Citation.update_convs(4))

lemma only_pages_merge: "only_pages h (h(canon := merge_pages (h canon) other))"
  by (simp add: only_pages_def merge_pages_def)

lemma build_key_map_only_pages: "only_pages h (fst (build_key_map h d rest))"
proof (induction rest arbitrary: h d)
  case Nil
  then show ?case by (simp add: only_pages_refl)
next
  case (Cons c rest)
  show ?case
  proof (cases "map_of d (normalized_key (h c))")
    case None
    then show ?thesis using Cons.IH by simp
  next
    case (Some canon)
    have "only_pages h (h(canon := merge_pages (h canon) (h c)))"
      by (rule only_pages_merge)
    moreover have "only_pages (h(canon := merge_pages (h canon) (h c)))
        (fst (build_key_map (h(canon := merge_pages (h canon) (h c))) d rest))"
      by (rule Cons.IH)
    ultimately have "only_pages h (fst (build_key_map (h(canon := merge_pages (h canon) (h c))) d rest))"
      by (rule only_pages_trans)
    then show ?thesis using Some by simp
  qed
qed

lemma build_key_map_keys:
  "snd (build_key_map h d rest) = keys_loop (\<lambda>a. normalized_key (h a)) d rest"
proof (induction rest arbitrary: h d)
  case Nil
  then show ?case by simp
next
  case (Cons c rest)
  show ?case
  proof (cases "map_of d (normalized_key (h c))")
    case None
    then show ?thesis using Cons.IH by simp
  next
    case (Some canon)
    have "(\<lambda>a. normalized_key ((h(canon := merge_pages (h canon) (h c))) a)) = (\<lambda>a. normalized_key (h a))"
      by (rule ext) (simp add: merge_pages_def)
    then show ?thesis using Some Cons.IH by simp
  qed
qed

lemma map_of_snoc:
  "map_of (d @ [(k', a')]) k = (case map_of d k of Some a \<Rightarrow> Some a | None \<Rightarrow> if k = k' then Some a' else None)"
  by (auto simp: map_add_def split: option.splits)

lemma map_of_keys_loop:
  "map_of (keys_loop kf d rest) k
     = (case map_of d k of Some a \<Rightarrow> Some a | None \<Rightarrow> find (\<lambda>b. kf b = k) rest)"
proof (induction rest arbitrary: d)
  case Nil
  then show ?case by (simp split: option.splits)
next
  case (Cons c rest)
  show ?case
  proof (cases "map_of d (kf c)")
    case None
    then show ?thesis
      by (auto simp: Cons.IH map_of_snoc split: option.splits)
  next
    case (Some canon)
    then show ?thesis
      by (auto simp: Cons.IH split: option.splits)
  qed
qed

lemma distinct_keys_loop:
  "distinct (map fst d) \<Longrightarrow> distinct (map fst (keys_loop kf d rest))"
proof (induction rest arbitrary: d)
  case Nil
  then show ?case by simp
next
  case (Cons c rest)
  show ?case
  proof (cases "map_of d (kf c)")
    case None
    then have "kf c \<notin> fst ` set d" by (simp add: map_of_eq_None_iff)
    then have "distinct (map fst (d @ [(kf c, c)]))" using Cons.prems by simp
    then show ?thesis using None Cons.IH by simp
  next
    case (Some canon)
    then show ?thesis using Cons by simp
  qed
qed

lemma set_keys_loop:
  "(k, a) \<in> set (keys_loop kf d rest) \<Longrightarrow> (k, a) \<in> set d \<or> (a \<in> set rest \<and> kf a = k)"
proof (induction rest arbitrary: d)
  case Nil
  then show ?case by simp
next
  case (Cons c rest)
  then show ?case
    by (cases "map_of d (kf c)") fastforce+
qed

lemma keys_of_keys_loop:
  "fst ` set (keys_loop kf d rest) = fst ` set d \<union> kf ` set rest"
proof -
  have "\<And>k. (k \<in> fst ` set (keys_loop kf d rest)) = (k \<in> fst ` set d \<union> kf ` set rest)"
  proof -
    fix k
    have "(k \<in> fst ` set (keys_loop kf d rest)) = (map_of (keys_loop kf d rest) k \<noteq> None)"
      by (simp add: map_of_eq_None_iff)
    also have "\<dots> = (map_of d k \<noteq> None \<or> find (\<lambda>b. kf b = k) rest \<noteq> None)"
      by (simp add: map_of_keys_loop split: option.splits)
    also have "\<dots> = (k \<in> fst ` set d \<union> kf ` set rest)"
      by (auto simp: map_of_eq_None_iff find_None_iff)
    finally show "(k \<in> fst ` set (keys_loop kf d rest)) = (k \<in> fst ` set d \<union> kf ` set rest)" .
  qed
  then show ?thesis by blast
qed

text \<open>The entries of the dictionary built from the empty one: each key with the first object that has it.\<close>

lemma keys_loop_entry:
  assumes "(k, a) \<in> set (keys_loop kf [] full)"
  shows "find (\<lambda>b. kf b = k) full = Some a"
proof -
  have "distinct (map fst (keys_loop kf [] full))"
    by (simp add: distinct_keys_loop)
  then have "map_of (keys_loop kf [] full) k = Some a"
    using assms by simp
  then show ?thesis by (simp add: map_of_keys_loop)
qed

lemma build_key_map_pages:
  assumes "distinct rest" "set rest \<inter> snd ` set d = {}"
  shows "(p \<in> set (pages (fst (build_key_map h d rest) a)))
     = (p \<in> set (pages (h a))
        \<or> (\<exists>c \<in> set rest. map_of (snd (build_key_map h d rest)) (normalized_key (h c)) = Some a
              \<and> p \<in> set (pages (h c))))"
  using assms
proof (induction rest arbitrary: h d)
  case Nil
  then show ?case by simp
next
  case (Cons c rest)
  show ?case
  proof (cases "map_of d (normalized_key (h c))")
    case None
    let ?d1 = "d @ [(normalized_key (h c), c)]"
    let ?d' = "snd (build_key_map h ?d1 rest)"
    have pre: "distinct rest" "set rest \<inter> snd ` set ?d1 = {}"
      using Cons.prems by auto
    have own: "map_of ?d' (normalized_key (h c)) = Some c"
      using None by (simp add: build_key_map_keys map_of_keys_loop map_add_def)
    have ih: "(p \<in> set (pages (fst (build_key_map h ?d1 rest) a)))
       = (p \<in> set (pages (h a))
          \<or> (\<exists>c' \<in> set rest. map_of ?d' (normalized_key (h c')) = Some a \<and> p \<in> set (pages (h c'))))"
      using pre by (rule Cons.IH)
    have unf: "build_key_map h d (c # rest) = build_key_map h ?d1 rest"
      using None by simp
    have "(p \<in> set (pages (h a))
          \<or> (\<exists>c' \<in> set (c # rest). map_of ?d' (normalized_key (h c')) = Some a \<and> p \<in> set (pages (h c'))))
       = (p \<in> set (pages (h a))
          \<or> (\<exists>c' \<in> set rest. map_of ?d' (normalized_key (h c')) = Some a \<and> p \<in> set (pages (h c'))))"
      using own by auto
    then show ?thesis
      unfolding unf using ih by simp
  next
    case (Some canon)
    let ?h1 = "h(canon := merge_pages (h canon) (h c))"
    let ?d' = "snd (build_key_map h d rest)"
    have pre: "distinct rest" "set rest \<inter> snd ` set d = {}"
      using Cons.prems by auto
    have cin: "canon \<in> snd ` set d"
      using Some by (metis map_of_SomeD snd_conv image_eqI)
    have kf1: "(\<lambda>b. normalized_key (?h1 b)) = (\<lambda>b. normalized_key (h b))"
      by (rule ext) (simp add: merge_pages_def)
    have k1: "\<And>b. normalized_key (?h1 b) = normalized_key (h b)"
      by (simp add: merge_pages_def)
    have d1: "snd (build_key_map ?h1 d rest) = ?d'"
      by (simp only: build_key_map_keys kf1)
    have own: "map_of ?d' (normalized_key (h c)) = Some canon"
      using Some by (simp add: build_key_map_keys map_of_keys_loop)
    have p1: "\<And>b. b \<in> set rest \<Longrightarrow> pages (?h1 b) = pages (h b)"
      using cin pre(2) by auto
    have pc: "set (pages (?h1 canon)) = set (pages (h canon)) \<union> set (pages (h c))"
      by (simp add: pages_merge_pages)
    have pa: "a \<noteq> canon \<Longrightarrow> pages (?h1 a) = pages (h a)"
      by simp
    have ih0: "(p \<in> set (pages (fst (build_key_map ?h1 d rest) a)))
       = (p \<in> set (pages (?h1 a))
          \<or> (\<exists>c' \<in> set rest. map_of (snd (build_key_map ?h1 d rest)) (normalized_key (?h1 c')) = Some a
                \<and> p \<in> set (pages (?h1 c'))))"
      using pre by (rule Cons.IH)
    have ex: "(\<exists>c' \<in> set rest. map_of (snd (build_key_map ?h1 d rest)) (normalized_key (?h1 c')) = Some a
                \<and> p \<in> set (pages (?h1 c')))
       = (\<exists>c' \<in> set rest. map_of ?d' (normalized_key (h c')) = Some a \<and> p \<in> set (pages (h c')))"
      unfolding d1 k1 using p1 by (intro bex_cong refl) simp
    have ih: "(p \<in> set (pages (fst (build_key_map ?h1 d rest) a)))
       = (p \<in> set (pages (?h1 a))
          \<or> (\<exists>c' \<in> set rest. map_of ?d' (normalized_key (h c')) = Some a \<and> p \<in> set (pages (h c'))))"
      using ih0 unfolding ex .
    have unf: "build_key_map h d (c # rest) = build_key_map ?h1 d rest"
      using Some by simp
    have goal_rhs: "(p \<in> set (pages (h a))
          \<or> (\<exists>c' \<in> set (c # rest). map_of ?d' (normalized_key (h c')) = Some a \<and> p \<in> set (pages (h c'))))
       = (p \<in> set (pages (h a)) \<or> (canon = a \<and> p \<in> set (pages (h c)))
          \<or> (\<exists>c' \<in> set rest. map_of ?d' (normalized_key (h c')) = Some a \<and> p \<in> set (pages (h c'))))"
      using own by auto
    have lhs: "(p \<in> set (pages (?h1 a))) = (p \<in> set (pages (h a)) \<or> (canon = a \<and> p \<in> set (pages (h c))))"
    proof (cases "a = canon")
      case True
      then show ?thesis using pc by auto
    next
      case False
      then show ?thesis using pa by auto
    qed
    show ?thesis
      unfolding unf d1 goal_rhs ih lhs by blast
  qed
qed

lemma build_key_map_pages_ok:
  "\<forall>a. pages_ok (h a) \<Longrightarrow> pages_ok (fst (build_key_map h d rest) a)"
proof (induction rest arbitrary: h d)
  case Nil
  then show ?case by simp
next
  case (Cons c rest)
  show ?case
  proof (cases "map_of d (normalized_key (h c))")
    case None
    then show ?thesis using Cons by simp
  next
    case (Some canon)
    have "\<forall>a. pages_ok ((h(canon := merge_pages (h canon) (h c))) a)"
      using Cons.prems by (simp add: pages_ok_merge_pages)
    then have "pages_ok (fst (build_key_map (h(canon := merge_pages (h canon) (h c))) d rest) a)"
      by (rule Cons.IH)
    then show ?thesis using Some by simp
  qed
qed

lemma build_key_map_untouched:
  "a \<notin> snd ` set (snd (build_key_map h d rest)) \<Longrightarrow> fst (build_key_map h d rest) a = h a"
proof (induction rest arbitrary: h d)
  case Nil
  then show ?case by simp
next
  case (Cons c rest)
  show ?case
  proof (cases "map_of d (normalized_key (h c))")
    case None
    then show ?thesis using Cons by simp
  next
    case (Some canon)
    let ?h1 = "h(canon := merge_pages (h canon) (h c))"
    have a: "a \<notin> snd ` set (snd (build_key_map ?h1 d rest))"
      using Cons.prems Some by simp
    have "map_of (snd (build_key_map ?h1 d rest)) (normalized_key (h c)) = Some canon"
      using Some by (simp add: build_key_map_keys map_of_keys_loop merge_pages_def)
    then have "canon \<in> snd ` set (snd (build_key_map ?h1 d rest))"
      by (metis map_of_SomeD snd_conv image_eqI)
    then have ne: "a \<noteq> canon" using a by auto
    have "fst (build_key_map ?h1 d rest) a = ?h1 a"
      using a by (rule Cons.IH)
    then show ?thesis using Some ne by simp
  qed
qed

subsection \<open>Absorbing the pages of short forms\<close>

lemma absorb_one_only_pages: "only_pages h (absorb_one h d sc)"
  by (simp add: only_pages_def absorb_one_def split: option.splits)

lemma absorb_one_untouched: "a \<notin> snd ` set d \<Longrightarrow> absorb_one h d sc a = h a"
proof -
  assume a: "a \<notin> snd ` set d"
  have "\<And>k b. map_of d k = Some b \<Longrightarrow> a \<noteq> b"
    using a by (metis map_of_SomeD snd_conv image_eqI)
  then show ?thesis
    by (auto simp: absorb_one_def split: option.splits)
qed

lemma absorb_one_pages:
  "(p \<in> set (pages (absorb_one h d sc a)))
     = (p \<in> set (pages (h a))
        \<or> (\<exists>k. truthy_parent (h sc) = Some k \<and> map_of d k = Some a \<and> p \<in> set (pages (h sc))))"
  by (auto simp: absorb_one_def set_absorb_pages split: option.splits)

lemma absorb_one_pages_ok: "\<forall>a. pages_ok (h a) \<Longrightarrow> pages_ok (absorb_one h d sc a)"
  by (auto simp: absorb_one_def pages_ok_def sorted_absorb_pages distinct_absorb_pages
      split: option.splits)

lemma only_pages_truthy: "only_pages h h' \<Longrightarrow> truthy_parent (h' a) = truthy_parent (h a)"
proof -
  assume "only_pages h h'"
  then have "h' a = (h a)\<lparr>pages := pages (h' a)\<rparr>" by (simp add: only_pages_def)
  then have "parent_key (h' a) = parent_key ((h a)\<lparr>pages := pages (h' a)\<rparr>)" by simp
  then show ?thesis by (simp add: truthy_parent_def)
qed

lemma absorb_shorts_only_pages: "only_pages h (absorb_shorts h d shorts)"
proof (induction shorts arbitrary: h)
  case Nil
  then show ?case by (simp add: only_pages_refl)
next
  case (Cons sc rest)
  have "only_pages h (absorb_one h d sc)" by (rule absorb_one_only_pages)
  moreover have "only_pages (absorb_one h d sc) (absorb_shorts (absorb_one h d sc) d rest)"
    by (rule Cons.IH)
  ultimately have "only_pages h (absorb_shorts (absorb_one h d sc) d rest)"
    by (rule only_pages_trans)
  then show ?case by simp
qed

lemma absorb_shorts_untouched: "a \<notin> snd ` set d \<Longrightarrow> absorb_shorts h d shorts a = h a"
  by (induction shorts arbitrary: h) (simp_all add: absorb_one_untouched)

lemma absorb_shorts_pages_ok: "\<forall>a. pages_ok (h a) \<Longrightarrow> pages_ok (absorb_shorts h d shorts a)"
proof (induction shorts arbitrary: h)
  case Nil
  then show ?case by simp
next
  case (Cons sc rest)
  have "\<forall>a. pages_ok (absorb_one h d sc a)"
    using Cons.prems by (simp add: absorb_one_pages_ok)
  then have "pages_ok (absorb_shorts (absorb_one h d sc) d rest a)"
    by (rule Cons.IH)
  then show ?case by simp
qed

lemma absorb_shorts_pages:
  assumes "set shorts \<inter> snd ` set d = {}"
  shows "(p \<in> set (pages (absorb_shorts h d shorts a)))
     = (p \<in> set (pages (h a))
        \<or> (\<exists>sc \<in> set shorts. \<exists>k. truthy_parent (h sc) = Some k \<and> map_of d k = Some a
              \<and> p \<in> set (pages (h sc))))"
  using assms
proof (induction shorts arbitrary: h)
  case Nil
  then show ?case by simp
next
  case (Cons sc rest)
  let ?h1 = "absorb_one h d sc"
  have pre: "set rest \<inter> snd ` set d = {}" using Cons.prems by auto
  have same: "\<And>b. b \<in> set rest \<Longrightarrow> ?h1 b = h b"
    using pre by (intro absorb_one_untouched) auto
  have ih0: "(p \<in> set (pages (absorb_shorts ?h1 d rest a)))
     = (p \<in> set (pages (?h1 a))
        \<or> (\<exists>sc' \<in> set rest. \<exists>k. truthy_parent (?h1 sc') = Some k \<and> map_of d k = Some a
              \<and> p \<in> set (pages (?h1 sc'))))"
    using pre by (rule Cons.IH)
  have ex: "(\<exists>sc' \<in> set rest. \<exists>k. truthy_parent (?h1 sc') = Some k \<and> map_of d k = Some a
              \<and> p \<in> set (pages (?h1 sc')))
      = (\<exists>sc' \<in> set rest. \<exists>k. truthy_parent (h sc') = Some k \<and> map_of d k = Some a
              \<and> p \<in> set (pages (h sc')))"
    using same by (intro bex_cong refl) simp
  have unf: "absorb_shorts h d (sc # rest) = absorb_shorts ?h1 d rest" by simp
  have ih: "(p \<in> set (pages (absorb_shorts ?h1 d rest a)))
     = (p \<in> set (pages (?h1 a))
        \<or> (\<exists>sc' \<in> set rest. \<exists>k. truthy_parent (h sc') = Some k \<and> map_of d k = Some a
              \<and> p \<in> set (pages (h sc'))))"
    using ih0 unfolding ex .
  have pa: "(p \<in> set (pages (?h1 a)))
     = (p \<in> set (pages (h a))
        \<or> (\<exists>k. truthy_parent (h sc) = Some k \<and> map_of d k = Some a \<and> p \<in> set (pages (h sc))))"
    by (rule absorb_one_pages)
  show ?case
    unfolding unf ih pa by auto
qed

subsection \<open>Sort keys\<close>

lemma generate_sort_key_idem: "generate_sort_key (generate_sort_key c) = generate_sort_key c"
  by (simp add: generate_sort_key_def Let_def)

lemma sort_keys_loop_pointwise:
  "sort_keys_loop h cs = (\<lambda>a. if a \<in> set cs then generate_sort_key (h a) else h a)"
proof (induction cs arbitrary: h)
  case Nil
  then show ?case by simp
next
  case (Cons c cs)
  show ?case
    by (rule ext) (simp add: Cons.IH generate_sort_key_idem)
qed

lemma sort_keys_loop_fields:
  "sort_keys_loop h cs a = (h a)\<lparr>sort_key_c := sort_key_c (sort_keys_loop h cs a)\<rparr>"
  by (simp add: sort_keys_loop_pointwise generate_sort_key_def Let_def)

section \<open>The stages of detection\<close>

text \<open>
  Names for the intermediate results of \<^verbatim>\<open>detect\<close>: the citations built in document
  order, the addresses of the full and of the short-form citations, the store after
  short-form resolution, the store and dictionary after the first loop of step 6, and
  the store after the second.
\<close>

definition cites :: "RawMatch list \<Rightarrow> Citation list" where
  "cites raw_matches = to_citations (remove_overlaps raw_matches)"

definition full_addrs :: "Citation list \<Rightarrow> nat list" where
  "full_addrs cs = filter (\<lambda>c. \<not> is_short_form (alloc cs c)) [0..<length cs]"

definition short_addrs :: "Citation list \<Rightarrow> nat list" where
  "short_addrs cs = filter (\<lambda>c. is_short_form (alloc cs c)) [0..<length cs]"

definition resolved :: "RawMatch list \<Rightarrow> heap" where
  "resolved raw_matches =
     resolve_short_forms (alloc (cites raw_matches)) (full_addrs (cites raw_matches))
       (short_addrs (cites raw_matches))"

definition merged :: "RawMatch list \<Rightarrow> heap \<times> key_map" where
  "merged raw_matches = build_key_map (resolved raw_matches) [] (full_addrs (cites raw_matches))"

definition absorbed :: "RawMatch list \<Rightarrow> heap" where
  "absorbed raw_matches =
     absorb_shorts (fst (merged raw_matches)) (snd (merged raw_matches))
       (short_addrs (cites raw_matches))"

definition final_heap :: "RawMatch list \<Rightarrow> heap" where
  "final_heap raw_matches = sort_keys_loop (absorbed raw_matches) (map snd (snd (merged raw_matches)))"

lemma detect_state_stages:
  "detect_state ms =
     (final_heap ms,
      sort_key (\<lambda>c. (sort_order (category (final_heap ms c)), sort_key_c (final_heap ms c)))
        (map snd (snd (merged ms))))"
  by (simp add: detect_state_def Let_def final_heap_def absorbed_def merged_def resolved_def
      cites_def full_addrs_def short_addrs_def split: prod.splits)

lemma detect_matches_stages:
  "detect_matches ms =
     map (final_heap ms)
       (sort_key (\<lambda>c. (sort_order (category (final_heap ms c)), sort_key_c (final_heap ms c)))
          (map snd (snd (merged ms))))"
  by (simp add: detect_matches_def detect_state_stages)

subsection \<open>The initial store\<close>

lemma alloc_nth: "a < length cs \<Longrightarrow> alloc cs a = cs ! a"
  by (simp add: alloc_def)

lemma pages_ok_to_citation: "pages_ok (to_citation m)"
  by (simp add: pages_ok_def to_citation_def Let_def)


lemma pages_ok_alloc: "pages_ok (alloc (cites ms) a)"
  by (simp add: alloc_def cites_def to_citations_def pages_ok_to_citation)
     (simp add: pages_ok_def blank_def)


lemma set_full_addrs: "set (full_addrs cs) = {a. a < length cs \<and> \<not> is_short_form (cs ! a)}"
  by (auto simp: full_addrs_def alloc_def)

lemma set_short_addrs: "set (short_addrs cs) = {a. a < length cs \<and> is_short_form (cs ! a)}"
  by (auto simp: short_addrs_def alloc_def)

lemma distinct_full_addrs: "distinct (full_addrs cs)"
  by (simp add: full_addrs_def)

lemma distinct_short_addrs: "distinct (short_addrs cs)"
  by (simp add: short_addrs_def)

lemma addrs_disjoint: "set (full_addrs cs) \<inter> set (short_addrs cs) = {}"
  by (auto simp: set_full_addrs set_short_addrs)

subsection \<open>After short-form resolution\<close>

lemma resolved_pointwise:
  "resolved ms a =
     (if a \<in> set (short_addrs (cites ms))
      then link (alloc (cites ms))
             (target (alloc (cites ms)) (full_addrs (cites ms))
                (sort_key (\<lambda>c. min_page (alloc (cites ms) c)) (full_addrs (cites ms))) a) a
      else alloc (cites ms) a)"
  by (simp add: resolved_def resolve_short_forms_pointwise [OF addrs_disjoint])

lemma link_fields:
  "pages (link h t a) = pages (h a)"
  "normalized_key (link h t a) = normalized_key (h a)"
  "is_short_form (link h t a) = is_short_form (h a)"
  by (simp_all add: link_def split: option.splits)

lemma resolved_fields:
  "pages (resolved ms a) = pages (alloc (cites ms) a)"
  "normalized_key (resolved ms a) = normalized_key (alloc (cites ms) a)"
  "is_short_form (resolved ms a) = is_short_form (alloc (cites ms) a)"
  by (simp_all add: resolved_pointwise link_fields)

lemma resolved_full: "a \<notin> set (short_addrs (cites ms)) \<Longrightarrow> resolved ms a = alloc (cites ms) a"
  by (simp add: resolved_pointwise)



lemma pages_ok_resolved: "pages_ok (resolved ms a)"
  using pages_ok_alloc [of ms a] by (simp add: pages_ok_def resolved_fields)

subsection \<open>After the first loop of step 6\<close>

lemma merged_keys:
  "snd (merged ms) = keys_loop (\<lambda>a. normalized_key (alloc (cites ms) a)) [] (full_addrs (cites ms))"
  by (simp add: merged_def build_key_map_keys resolved_fields)

lemma merged_distinct: "distinct (map fst (snd (merged ms)))"
  by (simp add: merged_keys distinct_keys_loop)

lemma merged_lookup:
  "map_of (snd (merged ms)) k
     = find (\<lambda>b. normalized_key (alloc (cites ms) b) = k) (full_addrs (cites ms))"
  by (simp add: merged_keys map_of_keys_loop)

lemma merged_entry:
  assumes "(k, a) \<in> set (snd (merged ms))"
  shows "find (\<lambda>b. normalized_key (alloc (cites ms) b) = k) (full_addrs (cites ms)) = Some a"
  using assms merged_distinct [of ms] by (simp add: merged_lookup [symmetric])

lemma merged_entry_full:
  assumes "(k, a) \<in> set (snd (merged ms))"
  shows "a \<in> set (full_addrs (cites ms))" "normalized_key (alloc (cites ms) a) = k"
  using merged_entry [OF assms] by (auto simp: find_Some_iff)

lemma merged_values: "snd ` set (snd (merged ms)) \<subseteq> set (full_addrs (cites ms))"
  using merged_entry_full(1) by fastforce

lemma merged_values_short: "set (short_addrs (cites ms)) \<inter> snd ` set (snd (merged ms)) = {}"
  using merged_values [of ms] addrs_disjoint [of "cites ms"] by blast

lemma merged_has_key:
  assumes "fc \<in> set (full_addrs (cites ms))"
  shows "\<exists>a. (normalized_key (alloc (cites ms) fc), a) \<in> set (snd (merged ms))"
proof -
  have "normalized_key (alloc (cites ms) fc) \<in> fst ` set (snd (merged ms))"
    using assms by (simp add: merged_keys keys_of_keys_loop)
  then show ?thesis by force
qed

lemma merged_only_pages: "only_pages (resolved ms) (fst (merged ms))"
  by (simp add: merged_def build_key_map_only_pages)

lemma merged_pages_ok: "pages_ok (fst (merged ms) a)"
  by (simp add: merged_def build_key_map_pages_ok pages_ok_resolved)

lemma merged_untouched: "a \<notin> snd ` set (snd (merged ms)) \<Longrightarrow> fst (merged ms) a = resolved ms a"
  by (simp add: merged_def build_key_map_untouched)

lemma merged_pages:
  assumes "(k, a) \<in> set (snd (merged ms))"
  shows "(p \<in> set (pages (fst (merged ms) a)))
     = (\<exists>c \<in> set (full_addrs (cites ms)).
          normalized_key (alloc (cites ms) c) = k \<and> p \<in> set (pages (alloc (cites ms) c)))"
proof -
  let ?h0 = "alloc (cites ms)"
  let ?full = "full_addrs (cites ms)"
  have ka: "normalized_key (?h0 a) = k" and af: "a \<in> set ?full"
    using merged_entry_full [OF assms] by auto
  have fa: "find (\<lambda>b. normalized_key (?h0 b) = k) ?full = Some a"
    using merged_entry [OF assms] .
  have same: "\<And>c. c \<in> set ?full \<Longrightarrow>
      (map_of (snd (merged ms)) (normalized_key (resolved ms c)) = Some a) = (normalized_key (?h0 c) = k)"
  proof -
    fix c assume c: "c \<in> set ?full"
    show "(map_of (snd (merged ms)) (normalized_key (resolved ms c)) = Some a) = (normalized_key (?h0 c) = k)"
    proof
      assume "map_of (snd (merged ms)) (normalized_key (resolved ms c)) = Some a"
      then have "find (\<lambda>b. normalized_key (?h0 b) = normalized_key (?h0 c)) ?full = Some a"
        by (simp add: merged_lookup resolved_fields)
      then have "normalized_key (?h0 a) = normalized_key (?h0 c)"
        by (auto simp: find_Some_iff)
      then show "normalized_key (?h0 c) = k" using ka by simp
    next
      assume "normalized_key (?h0 c) = k"
      then show "map_of (snd (merged ms)) (normalized_key (resolved ms c)) = Some a"
        using fa by (simp add: merged_lookup resolved_fields)
    qed
  qed
  have "(p \<in> set (pages (fst (merged ms) a)))
     = (p \<in> set (pages (resolved ms a))
        \<or> (\<exists>c \<in> set ?full. map_of (snd (merged ms)) (normalized_key (resolved ms c)) = Some a
              \<and> p \<in> set (pages (resolved ms c))))"
    unfolding merged_def
    by (rule build_key_map_pages) (simp_all add: distinct_full_addrs)
  also have "\<dots> = (p \<in> set (pages (?h0 a))
        \<or> (\<exists>c \<in> set ?full. normalized_key (?h0 c) = k \<and> p \<in> set (pages (?h0 c))))"
    using same by (simp add: resolved_fields cong: bex_cong)
  also have "\<dots> = (\<exists>c \<in> set ?full. normalized_key (?h0 c) = k \<and> p \<in> set (pages (?h0 c)))"
    using ka af by blast
  finally show ?thesis .
qed

subsection \<open>After the second loop of step 6\<close>

lemma absorbed_only_pages: "only_pages (fst (merged ms)) (absorbed ms)"
  by (simp add: absorbed_def absorb_shorts_only_pages)

lemma absorbed_pages_ok: "pages_ok (absorbed ms a)"
  by (simp add: absorbed_def absorb_shorts_pages_ok merged_pages_ok)

lemma absorbed_untouched: "a \<notin> snd ` set (snd (merged ms)) \<Longrightarrow> absorbed ms a = resolved ms a"
  by (simp add: absorbed_def absorb_shorts_untouched merged_untouched)

lemma absorbed_short:
  "sc \<in> set (short_addrs (cites ms)) \<Longrightarrow> absorbed ms sc = resolved ms sc"
  using merged_values_short [of ms] by (intro absorbed_untouched) blast

lemma absorbed_pages:
  "(p \<in> set (pages (absorbed ms a)))
     = (p \<in> set (pages (fst (merged ms) a))
        \<or> (\<exists>sc \<in> set (short_addrs (cites ms)). \<exists>k. truthy_parent (resolved ms sc) = Some k
              \<and> map_of (snd (merged ms)) k = Some a \<and> p \<in> set (pages (alloc (cites ms) sc))))"
proof -
  let ?short = "short_addrs (cites ms)"
  have same: "\<And>sc. sc \<in> set ?short \<Longrightarrow> fst (merged ms) sc = resolved ms sc"
    using merged_values_short [of ms] by (intro merged_untouched) blast
  have "(p \<in> set (pages (absorbed ms a)))
     = (p \<in> set (pages (fst (merged ms) a))
        \<or> (\<exists>sc \<in> set ?short. \<exists>k. truthy_parent (fst (merged ms) sc) = Some k
              \<and> map_of (snd (merged ms)) k = Some a \<and> p \<in> set (pages (fst (merged ms) sc))))"
    unfolding absorbed_def
    by (rule absorb_shorts_pages) (rule merged_values_short)
  also have "\<dots> = (p \<in> set (pages (fst (merged ms) a))
        \<or> (\<exists>sc \<in> set ?short. \<exists>k. truthy_parent (resolved ms sc) = Some k
              \<and> map_of (snd (merged ms)) k = Some a \<and> p \<in> set (pages (alloc (cites ms) sc))))"
    using same by (simp add: resolved_fields cong: bex_cong)
  finally show ?thesis .
qed

subsection \<open>The final store and the result\<close>

lemma final_heap_fields:
  "final_heap ms a = (absorbed ms a)\<lparr>sort_key_c := sort_key_c (final_heap ms a)\<rparr>"
  unfolding final_heap_def by (rule sort_keys_loop_fields)

lemma final_heap_pages: "pages (final_heap ms a) = pages (absorbed ms a)"
  using final_heap_fields [of ms a]
  by (metis Citation.select_convs(4) Citation.surjective Citation.update_convs(10))

lemma only_pagesD: "only_pages h h' \<Longrightarrow> \<exists>P. h' a = (h a)\<lparr>pages := P\<rparr>"
  unfolding only_pages_def by blast

lemma final_heap_shape:
  "\<exists>P S. final_heap ms a = (resolved ms a)\<lparr>pages := P, sort_key_c := S\<rparr>"
proof -
  obtain P2 where 2: "fst (merged ms) a = (resolved ms a)\<lparr>pages := P2\<rparr>"
    using only_pagesD [OF merged_only_pages] by blast
  obtain P3 where 3: "absorbed ms a = (fst (merged ms) a)\<lparr>pages := P3\<rparr>"
    using only_pagesD [OF absorbed_only_pages] by blast
  obtain S where 4: "final_heap ms a = (absorbed ms a)\<lparr>sort_key_c := S\<rparr>"
    using final_heap_fields by blast
  have "final_heap ms a = (resolved ms a)\<lparr>pages := P3, sort_key_c := S\<rparr>"
    by (simp add: 4 3 2)
  then show ?thesis by blast
qed

lemma final_heap_resolved:
  "final_heap ms a = (resolved ms a)\<lparr>pages := pages (final_heap ms a),
                                        sort_key_c := sort_key_c (final_heap ms a)\<rparr>"
proof -
  obtain P S where "final_heap ms a = (resolved ms a)\<lparr>pages := P, sort_key_c := S\<rparr>"
    using final_heap_shape by blast
  then show ?thesis by simp
qed

lemma final_heap_key: "normalized_key (final_heap ms a) = normalized_key (alloc (cites ms) a)"
proof -
  obtain P S where "final_heap ms a = (resolved ms a)\<lparr>pages := P, sort_key_c := S\<rparr>"
    using final_heap_shape by blast
  then show ?thesis by (simp add: resolved_fields)
qed



lemma final_heap_pages_ok: "pages_ok (final_heap ms a)"
  using absorbed_pages_ok [of ms a] by (simp add: pages_ok_def final_heap_pages)


lemma set_detect_matches:
  "set (detect_matches ms) = final_heap ms ` snd ` set (snd (merged ms))"
  by (simp add: detect_matches_stages)

lemma keys_detect_matches:
  "map (\<lambda>e. normalized_key (final_heap ms (snd e))) (snd (merged ms)) = map fst (snd (merged ms))"
proof (rule map_cong [OF refl])
  fix e assume "e \<in> set (snd (merged ms))"
  then have "(fst e, snd e) \<in> set (snd (merged ms))" by simp
  then show "normalized_key (final_heap ms (snd e)) = fst e"
    using merged_entry_full(2) by (simp add: final_heap_key)
qed

lemma distinct_map_insort_key:
  "distinct (map f (insort_key g x xs)) = (f x \<notin> f ` set xs \<and> distinct (map f xs))"
  by (induction xs) (auto simp: set_insort_key)

lemma distinct_map_sort_key:
  "distinct (map f (sort_key g xs)) = distinct (map f xs)"
  by (induction xs) (simp_all add: distinct_map_insort_key)

lemma detect_matches_distinct_keys: "distinct (map normalized_key (detect_matches ms))"
proof -
  have e: "map (\<lambda>a. normalized_key (final_heap ms a)) (map snd (snd (merged ms)))
      = map (\<lambda>e. normalized_key (final_heap ms (snd e))) (snd (merged ms))"
    by (simp add: comp_def)
  have "distinct (map (\<lambda>a. normalized_key (final_heap ms a)) (map snd (snd (merged ms))))"
    unfolding e keys_detect_matches by (rule merged_distinct)
  then have "distinct (map (\<lambda>a. normalized_key (final_heap ms a))
      (sort_key (\<lambda>c. (sort_order (category (final_heap ms c)), sort_key_c (final_heap ms c)))
         (map snd (snd (merged ms)))))"
    by (simp only: distinct_map_sort_key)
  then show ?thesis
    by (simp add: detect_matches_stages comp_def)
qed

section \<open>The pages invariant\<close>

lemma final_state: "fst (detect_state ms) = final_heap ms"
  by (simp add: detect_state_stages)

text \<open>Three raw matches for concrete runs: a case, an \<^verbatim>\<open>Id.\<close> form, and the same case again.\<close>

definition ex_matches :: "RawMatch list" where
  "ex_matches =
     [\<lparr>rm_text = ''Roe v. Doe, 1 F. 2'', rm_start = 0, rm_end = 18, rm_page = 1,
       rm_pattern_name = ''case_full'', rm_category = CASES\<rparr>,
      \<lparr>rm_text = ''Id.'', rm_start = 20, rm_end = 23, rm_page = 2,
       rm_pattern_name = ''short_id'', rm_category = CASES\<rparr>,
      \<lparr>rm_text = ''Roe v.  Doe, 1 F. 2'', rm_start = 30, rm_end = 49, rm_page = 3,
       rm_pattern_name = ''case_full'', rm_category = CASES\<rparr>]"

definition ex_result :: Citation where
  "ex_result = \<lparr>full_text = ''Roe v. Doe, 1 F. 2'', display_name = ''Roe v. Doe, 1 F. 2'',
     category = CASES, pages = [1, 2, 3], is_primary = False, is_short_form = False,
     parent_key = None, normalized_key = ''1_f_2'', confidence = 1,
     sort_key_c = ''roe v doe 1 f 2''\<rparr>"

lemma ex_run: "detect_matches ex_matches = [ex_result]"
  by code_simp

text \<open>
  C8. Pages invariant and merge monotonicity: the pages of a citation are sorted and
  free of duplicates when the builder creates it; \<^verbatim>\<open>merge_pages\<close> leaves the pages of
  the receiving citation sorted, with exactly the pages of both citations, and free of
  duplicates when the receiving citation had none; the absorption of a short form's
  pages keeps a sorted duplicate-free list sorted and duplicate-free and adds exactly
  the new pages; and in the store that \<^verbatim>\<open>detect\<close> ends with, and in its result, every
  citation has sorted duplicate-free pages.
\<close>

theorem C8_pages_invariant:
  "(\<forall>c \<in> set (to_citations ms). sorted (pages c) \<and> distinct (pages c))
   \<and> sorted (pages (merge_pages self other))
   \<and> set (pages (merge_pages self other)) = set (pages self) \<union> set (pages other)
   \<and> (distinct (pages self) \<longrightarrow> distinct (pages (merge_pages self other)))
   \<and> set (absorb_pages qs ps) = set ps \<union> set qs
   \<and> (sorted ps \<and> distinct ps \<longrightarrow> sorted (absorb_pages qs ps) \<and> distinct (absorb_pages qs ps))
   \<and> (\<forall>a. sorted (pages (fst (detect_state ms) a)) \<and> distinct (pages (fst (detect_state ms) a)))
   \<and> (\<forall>c \<in> set (detect_matches ms). sorted (pages c) \<and> distinct (pages c))"
proof (intro conjI)
  show "\<forall>c \<in> set (to_citations ms). sorted (pages c) \<and> distinct (pages c)"
    using pages_ok_to_citation by (auto simp: to_citations_def pages_ok_def)
  show "sorted (pages (merge_pages self other))"
    by (rule pages_merge_pages(1))
  show "set (pages (merge_pages self other)) = set (pages self) \<union> set (pages other)"
    by (rule pages_merge_pages(2))
  show "distinct (pages self) \<longrightarrow> distinct (pages (merge_pages self other))"
    by (simp add: pages_merge_pages(3))
  show "set (absorb_pages qs ps) = set ps \<union> set qs"
    by (auto simp: set_absorb_pages)
  show "sorted ps \<and> distinct ps \<longrightarrow> sorted (absorb_pages qs ps) \<and> distinct (absorb_pages qs ps)"
    by (simp add: sorted_absorb_pages distinct_absorb_pages)
  show "\<forall>a. sorted (pages (fst (detect_state ms) a)) \<and> distinct (pages (fst (detect_state ms) a))"
    using final_heap_pages_ok [of ms] by (simp add: final_state pages_ok_def)
  show "\<forall>c \<in> set (detect_matches ms). sorted (pages c) \<and> distinct (pages c)"
    using final_heap_pages_ok [of ms] by (auto simp: set_detect_matches pages_ok_def)
qed

theorem C8_pages_invariant_witness:
  "pages (merge_pages (ex_result\<lparr>pages := [5, 9]\<rparr>) (ex_result\<lparr>pages := [7, 5, 2, 7]\<rparr>)) = [2, 5, 7, 9]
   \<and> distinct (pages (ex_result\<lparr>pages := [5, 9]\<rparr>))
   \<and> sorted (pages (merge_pages (ex_result\<lparr>pages := [5, 9]\<rparr>) (ex_result\<lparr>pages := [7, 5, 2, 7]\<rparr>)))
   \<and> distinct (pages (merge_pages (ex_result\<lparr>pages := [5, 9]\<rparr>) (ex_result\<lparr>pages := [7, 5, 2, 7]\<rparr>)))
   \<and> absorb_pages [7, 5, 2, 7] [5, 9] = [2, 5, 7, 9]
   \<and> sorted [5, 9 :: int] \<and> distinct [5, 9 :: int]
   \<and> sorted (absorb_pages [7, 5, 2, 7] [5, 9]) \<and> distinct (absorb_pages [7, 5, 2, 7] [5, 9])
   \<and> detect_matches ex_matches = [ex_result]
   \<and> sorted (pages ex_result) \<and> distinct (pages ex_result)"
proof -
  let ?self = "ex_result\<lparr>pages := [5, 9]\<rparr>"
  let ?other = "ex_result\<lparr>pages := [7, 5, 2, 7]\<rparr>"
  note t = C8_pages_invariant [of ex_matches ?self ?other "[7, 5, 2, 7]" "[5, 9]"]
  have m: "pages (merge_pages ?self ?other) = [2, 5, 7, 9]"
    by code_simp
  have a: "absorb_pages [7, 5, 2, 7] [5, 9] = [2, 5, 7, 9]"
    by code_simp
  have d: "distinct (pages ?self)" "sorted [5, 9 :: int]" "distinct [5, 9 :: int]"
    by simp_all
  have r: "detect_matches ex_matches = [ex_result]"
    by (rule ex_run)
  have 1: "sorted (pages (merge_pages ?self ?other))" using t by blast
  have 2: "distinct (pages (merge_pages ?self ?other))" using t d(1) by blast
  have 3: "sorted (absorb_pages [7, 5, 2, 7] [5, 9]) \<and> distinct (absorb_pages [7, 5, 2, 7] [5, 9])"
    using t d(2,3) by blast
  have "ex_result \<in> set (detect_matches ex_matches)" using r by simp
  then have 4: "sorted (pages ex_result) \<and> distinct (pages ex_result)" using t by blast
  show ?thesis
    using m a d r 1 2 3 4 by blast
qed

section \<open>Deduplication and short-form closure\<close>

lemma find_filter_upt_least:
  assumes "find P (filter R [0..<n]) = Some a"
  shows "a < n \<and> R a \<and> P a \<and> (\<forall>b < a. R b \<longrightarrow> \<not> P b)"
proof -
  let ?xs = "filter R [0..<n]"
  obtain i where i: "i < length ?xs" "P (?xs ! i)" "a = ?xs ! i" "\<forall>j < i. \<not> P (?xs ! j)"
    using assms unfolding find_Some_iff by blast
  have mem: "a \<in> set ?xs" unfolding i(3) using i(1) by (rule nth_mem)
  have an: "a < n" "R a" using mem by auto
  have pa: "P a" using i(2,3) by simp
  have sw: "sorted_wrt (<) ?xs" by (simp add: sorted_wrt_filter)
  have least: "\<forall>b < a. R b \<longrightarrow> \<not> P b"
  proof (intro allI impI)
    fix b assume b: "b < a" "R b"
    then have "b \<in> set ?xs" using an(1) by auto
    then obtain j where j: "j < length ?xs" "?xs ! j = b" by (metis in_set_conv_nth)
    have "j < i"
    proof (rule ccontr)
      assume "\<not> j < i"
      then have "i = j \<or> i < j" by auto
      then have "?xs ! i \<le> ?xs ! j"
      proof
        assume "i = j" then show ?thesis by simp
      next
        assume "i < j"
        then have "?xs ! i < ?xs ! j" using sw j(1) by (simp add: sorted_wrt_iff_nth_less)
        then show ?thesis by simp
      qed
      then show False using b(1) i(3) j(2) by simp
    qed
    then show "\<not> P b" using i(4) j(2) by auto
  qed
  show ?thesis using an pa least by blast
qed

lemma merged_entry_first:
  assumes "(k, a) \<in> set (snd (merged ms))"
  shows "a < length (cites ms)" "\<not> is_short_form (cites ms ! a)"
    "normalized_key (cites ms ! a) = k"
    "\<forall>b < a. \<not> is_short_form (cites ms ! b) \<longrightarrow> normalized_key (cites ms ! b) \<noteq> k"
proof -
  let ?cs = "cites ms"
  have f: "find (\<lambda>b. normalized_key (alloc ?cs b) = k)
      (filter (\<lambda>c. \<not> is_short_form (alloc ?cs c)) [0..<length ?cs]) = Some a"
    using merged_entry [OF assms] by (simp add: full_addrs_def)
  have l: "a < length ?cs \<and> \<not> is_short_form (alloc ?cs a) \<and> normalized_key (alloc ?cs a) = k
      \<and> (\<forall>b < a. \<not> is_short_form (alloc ?cs b) \<longrightarrow> normalized_key (alloc ?cs b) \<noteq> k)"
    using find_filter_upt_least [OF f] .
  then show a: "a < length ?cs" by simp
  have eq: "\<And>b. b \<le> a \<Longrightarrow> alloc ?cs b = ?cs ! b"
    using a by (simp add: alloc_nth)
  show "\<not> is_short_form (?cs ! a)" using l eq [of a] by simp
  show "normalized_key (?cs ! a) = k" using l eq [of a] by simp
  show "\<forall>b < a. \<not> is_short_form (?cs ! b) \<longrightarrow> normalized_key (?cs ! b) \<noteq> k"
  proof (intro allI impI)
    fix b assume b: "b < a" "\<not> is_short_form (?cs ! b)"
    then have "alloc ?cs b = ?cs ! b" using eq [of b] by simp
    then show "normalized_key (?cs ! b) \<noteq> k" using l b by metis
  qed
qed

lemma full_addrs_values:
  "(\<exists>c \<in> set (full_addrs cs). Q (alloc cs c)) = (\<exists>x \<in> set cs. \<not> is_short_form x \<and> Q x)"
proof
  assume "\<exists>c \<in> set (full_addrs cs). Q (alloc cs c)"
  then obtain c where c: "c \<in> set (full_addrs cs)" "Q (alloc cs c)" by blast
  then have "c < length cs" "\<not> is_short_form (cs ! c)" by (simp_all add: set_full_addrs)
  moreover have "Q (cs ! c)" using c(2) \<open>c < length cs\<close> by (simp add: alloc_nth)
  ultimately show "\<exists>x \<in> set cs. \<not> is_short_form x \<and> Q x"
    using nth_mem by blast
next
  assume "\<exists>x \<in> set cs. \<not> is_short_form x \<and> Q x"
  then obtain x where x: "x \<in> set cs" "\<not> is_short_form x" "Q x" by blast
  then obtain c where c: "c < length cs" "cs ! c = x" by (metis in_set_conv_nth)
  then have "c \<in> set (full_addrs cs)" "Q (alloc cs c)"
    using x by (simp_all add: set_full_addrs alloc_nth)
  then show "\<exists>c \<in> set (full_addrs cs). Q (alloc cs c)" by blast
qed

lemma merged_pages_values:
  assumes "(k, a) \<in> set (snd (merged ms))"
  shows "(p \<in> set (pages (fst (merged ms) a)))
     = (\<exists>x \<in> set (cites ms). \<not> is_short_form x \<and> normalized_key x = k \<and> p \<in> set (pages x))"
  unfolding merged_pages [OF assms]
  by (rule full_addrs_values [of "cites ms" "\<lambda>x. normalized_key x = k \<and> p \<in> set (pages x)"])

lemma final_entry:
  assumes "(k, a) \<in> set (snd (merged ms))"
  shows "final_heap ms a = (cites ms ! a)\<lparr>pages := pages (final_heap ms a),
                                          sort_key_c := sort_key_c (final_heap ms a)\<rparr>"
    and "set (pages (fst (merged ms) a)) \<subseteq> set (pages (final_heap ms a))"
proof -
  have first: "a < length (cites ms)" "\<not> is_short_form (cites ms ! a)"
    using merged_entry_first [OF assms] by auto
  then have "a \<notin> set (short_addrs (cites ms))" by (simp add: set_short_addrs)
  then have "resolved ms a = cites ms ! a"
    using first(1) by (simp add: resolved_full alloc_nth)
  then show "final_heap ms a = (cites ms ! a)\<lparr>pages := pages (final_heap ms a),
                                          sort_key_c := sort_key_c (final_heap ms a)\<rparr>"
    using final_heap_resolved [of ms a] by simp
  have "\<And>p. p \<in> set (pages (fst (merged ms) a)) \<Longrightarrow> p \<in> set (pages (final_heap ms a))"
    by (simp add: final_heap_pages absorbed_pages)
  then show "set (pages (fst (merged ms) a)) \<subseteq> set (pages (final_heap ms a))" by blast
qed

text \<open>
  C1. Deduplication and merge: no two citations of the result have the same key. Every
  citation of the result is the first full citation with its key, in document order,
  but for its pages and its sort key; its pages are sorted, free of duplicates, and
  contain the pages of every full citation with that key. Every full citation has its
  key in the result. After the first loop of step 6, the pages of the object kept for a
  key are exactly the sorted, duplicate-free union of the pages of the full citations
  with that key.
\<close>

theorem C1_dedup_merge:
  "distinct (map normalized_key (detect_matches ms))
   \<and> (\<forall>c \<in> set (detect_matches ms).
        \<exists>a < length (cites ms).
           \<not> is_short_form (cites ms ! a)
         \<and> (\<forall>b < a. \<not> is_short_form (cites ms ! b)
               \<longrightarrow> normalized_key (cites ms ! b) \<noteq> normalized_key c)
         \<and> c = (cites ms ! a)\<lparr>pages := pages c, sort_key_c := sort_key_c c\<rparr>
         \<and> sorted (pages c) \<and> distinct (pages c)
         \<and> (\<forall>x \<in> set (cites ms). \<not> is_short_form x \<and> normalized_key x = normalized_key c
               \<longrightarrow> set (pages x) \<subseteq> set (pages c)))
   \<and> (\<forall>x \<in> set (cites ms). \<not> is_short_form x
        \<longrightarrow> normalized_key x \<in> normalized_key ` set (detect_matches ms))
   \<and> (\<forall>e \<in> set (snd (merged ms)).
        pages (fst (merged ms) (snd e))
          = sorted_list_of_set
              (\<Union>x \<in> {x \<in> set (cites ms). \<not> is_short_form x \<and> normalized_key x = fst e}.
                 set (pages x)))"
proof (intro conjI ballI)
  show "distinct (map normalized_key (detect_matches ms))"
    by (rule detect_matches_distinct_keys)
next
  fix c assume "c \<in> set (detect_matches ms)"
  then obtain e where e0: "e \<in> set (snd (merged ms))" and c: "c = final_heap ms (snd e)"
    unfolding set_detect_matches by blast
  obtain k a where ka: "e = (k, a)" by (cases e)
  have e: "(k, a) \<in> set (snd (merged ms))" using e0 ka by simp
  have ca: "c = final_heap ms a" using c ka by simp
  note first = merged_entry_first [OF e]
  have kc: "normalized_key c = k"
    using first(1,3) by (simp add: ca final_heap_key alloc_nth)
  have shape: "c = (cites ms ! a)\<lparr>pages := pages c, sort_key_c := sort_key_c c\<rparr>"
    unfolding ca by (rule final_entry(1) [OF e])
  have ok: "sorted (pages c)" "distinct (pages c)"
    using final_heap_pages_ok [of ms a] by (simp_all add: ca pages_ok_def)
  have sub: "\<forall>x \<in> set (cites ms). \<not> is_short_form x \<and> normalized_key x = normalized_key c
               \<longrightarrow> set (pages x) \<subseteq> set (pages c)"
  proof (intro ballI impI subsetI)
    fix x p assume x: "x \<in> set (cites ms)" "\<not> is_short_form x \<and> normalized_key x = normalized_key c"
      and p: "p \<in> set (pages x)"
    have "\<exists>x \<in> set (cites ms). \<not> is_short_form x \<and> normalized_key x = k \<and> p \<in> set (pages x)"
      using x p kc by blast
    then have "p \<in> set (pages (fst (merged ms) a))"
      by (simp only: merged_pages_values [OF e])
    then show "p \<in> set (pages c)"
      using final_entry(2) [OF e] unfolding ca by blast
  qed
  have least: "\<forall>b < a. \<not> is_short_form (cites ms ! b)
               \<longrightarrow> normalized_key (cites ms ! b) \<noteq> normalized_key c"
    using first(4) unfolding kc .
  show "\<exists>a < length (cites ms).
           \<not> is_short_form (cites ms ! a)
         \<and> (\<forall>b < a. \<not> is_short_form (cites ms ! b)
               \<longrightarrow> normalized_key (cites ms ! b) \<noteq> normalized_key c)
         \<and> c = (cites ms ! a)\<lparr>pages := pages c, sort_key_c := sort_key_c c\<rparr>
         \<and> sorted (pages c) \<and> distinct (pages c)
         \<and> (\<forall>x \<in> set (cites ms). \<not> is_short_form x \<and> normalized_key x = normalized_key c
               \<longrightarrow> set (pages x) \<subseteq> set (pages c))"
    using first(1) first(2) least shape ok sub by blast
next
  fix x assume x: "x \<in> set (cites ms)"
  show "\<not> is_short_form x \<longrightarrow> normalized_key x \<in> normalized_key ` set (detect_matches ms)"
  proof
    assume nx: "\<not> is_short_form x"
    obtain i where i: "i < length (cites ms)" "cites ms ! i = x"
      using x by (metis in_set_conv_nth)
    have fc: "i \<in> set (full_addrs (cites ms))" using i nx by (simp add: set_full_addrs)
    have ai: "alloc (cites ms) i = x" using i by (simp add: alloc_nth)
    obtain a where a: "(normalized_key x, a) \<in> set (snd (merged ms))"
      using merged_has_key [OF fc] unfolding ai by blast
    have "normalized_key (final_heap ms a) = normalized_key x"
      using merged_entry_full(2) [OF a] by (simp add: final_heap_key)
    moreover have "final_heap ms a \<in> set (detect_matches ms)"
      unfolding set_detect_matches using a by force
    ultimately show "normalized_key x \<in> normalized_key ` set (detect_matches ms)"
      by (metis image_eqI)
  qed
next
  fix e assume "e \<in> set (snd (merged ms))"
  then have e: "(fst e, snd e) \<in> set (snd (merged ms))" by simp
  have "pages_ok (fst (merged ms) (snd e))" by (rule merged_pages_ok)
  then have l: "pages (fst (merged ms) (snd e))
      = sorted_list_of_set (set (pages (fst (merged ms) (snd e))))"
    by (simp add: pages_ok_def sorted_distinct_eq)
  have "set (pages (fst (merged ms) (snd e)))
      = (\<Union>x \<in> {x \<in> set (cites ms). \<not> is_short_form x \<and> normalized_key x = fst e}. set (pages x))"
    using merged_pages_values [OF e] by blast
  then show "pages (fst (merged ms) (snd e))
          = sorted_list_of_set
              (\<Union>x \<in> {x \<in> set (cites ms). \<not> is_short_form x \<and> normalized_key x = fst e}.
                 set (pages x))"
    using l by simp
qed

theorem C1_dedup_merge_witness:
  "detect_matches ex_matches = [ex_result]
   \<and> distinct (map normalized_key (detect_matches ex_matches))
   \<and> length (cites ex_matches) = 3
   \<and> \<not> is_short_form (cites ex_matches ! 0) \<and> \<not> is_short_form (cites ex_matches ! 2)
   \<and> normalized_key (cites ex_matches ! 0) = normalized_key ex_result
   \<and> normalized_key (cites ex_matches ! 2) = normalized_key ex_result
   \<and> full_text (cites ex_matches ! 2) \<noteq> full_text ex_result
   \<and> ex_result = (cites ex_matches ! 0)\<lparr>pages := pages ex_result, sort_key_c := sort_key_c ex_result\<rparr>
   \<and> pages (cites ex_matches ! 2) = [3]
   \<and> set (pages (cites ex_matches ! 2)) \<subseteq> set (pages ex_result)
   \<and> snd (merged ex_matches) = [(''1_f_2'', 0)]
   \<and> pages (fst (merged ex_matches) 0) = [1, 3]"
proof -
  note t = C1_dedup_merge [of ex_matches]
  have r: "detect_matches ex_matches = [ex_result]"
    by (rule ex_run)
  have c: "length (cites ex_matches) = 3"
    "\<not> is_short_form (cites ex_matches ! 0)" "\<not> is_short_form (cites ex_matches ! 2)"
    "normalized_key (cites ex_matches ! 0) = normalized_key ex_result"
    "normalized_key (cites ex_matches ! 2) = normalized_key ex_result"
    "full_text (cites ex_matches ! 2) \<noteq> full_text ex_result"
    "ex_result = (cites ex_matches ! 0)\<lparr>pages := pages ex_result, sort_key_c := sort_key_c ex_result\<rparr>"
    "pages (cites ex_matches ! 2) = [3]"
    by code_simp+
  have m: "snd (merged ex_matches) = [(''1_f_2'', 0)]"
    by code_simp
  have d: "distinct (map normalized_key (detect_matches ex_matches))"
    using t by blast
  have mem: "cites ex_matches ! 2 \<in> set (cites ex_matches)"
    using c(1) by simp
  have res: "ex_result \<in> set (detect_matches ex_matches)"
    using r by simp
  have sub: "set (pages (cites ex_matches ! 2)) \<subseteq> set (pages ex_result)"
    using t res mem c(3) c(5) by blast
  have stage: "pages (fst (merged ex_matches) 0)
      = sorted_list_of_set
          (\<Union>x \<in> {x \<in> set (cites ex_matches). \<not> is_short_form x \<and> normalized_key x = ''1_f_2''}.
             set (pages x))"
    using t m by simp
  have u: "sorted_list_of_set
          (\<Union>x \<in> {x \<in> set (cites ex_matches). \<not> is_short_form x \<and> normalized_key x = ''1_f_2''}.
             set (pages x)) = [1, 3]"
    by code_simp
  show ?thesis
    using r d c sub m stage u by simp
qed

subsection \<open>Short-form closure\<close>











end
